theory Spec2Isabelle
  imports Complex_Main "HOL-Library.Word" "HOL-Library.AList"
begin

section \<open>Test fixtures of the time-series store: \<^verbatim>\<open>testutil/db.go\<close>\<close>

text \<open>
  Shallow embedding of \<^verbatim>\<open>src/testutil/db.go\<close>.

  \<^item> Go's \<^verbatim>\<open>int64\<close> (timestamps) is \<open>64 word\<close>: \<open>+\<close> and \<open>-\<close> wrap around, the
    comparisons of the source are the signed ones (\<open><s\<close>, \<open>\<le>s\<close>).
  \<^item> Go's \<^verbatim>\<open>int\<close> (slice indices, lengths, loop counters) is \<open>int\<close>: no counter of the
    file can leave the 64-bit range before memory is exhausted, so no wrap-around is
    written out for it. The bounds that the runtime checks when a slice is made or grown
    are part of the model; running out of physical memory is not.
  \<^item> \<^verbatim>\<open>float64\<close> sample values are never computed with, they are only stored and
    handed on: they are a type parameter \<open>'v\<close>.
  \<^item> A run-time panic, and a test aborted by \<^verbatim>\<open>testutil.Ok\<close>, is a value of
    type \<open>failure\<close>; fallible functions return \<open>failure + 'a\<close>.
\<close>

type_synonym int64 = "64 word"

datatype failure =
    IndexOutOfRange          \<comment> \<open>panic: index out of range\<close>
  | MakesliceLenOutOfRange   \<comment> \<open>panic: makeslice: len out of range\<close>
  | MakesliceCapOutOfRange   \<comment> \<open>panic: makeslice: cap out of range\<close>
  | GrowsliceOutOfRange      \<comment> \<open>panic: growslice: cap out of range\<close>
  | NilDereference           \<comment> \<open>panic: method call on a nil interface value\<close>
  | TestFatal string         \<comment> \<open>\<^verbatim>\<open>Ok(tb, err)\<close> with a non-nil \<^verbatim>\<open>err\<close>\<close>

text \<open>A Go \<^verbatim>\<open>error\<close> value: \<open>None\<close> is \<^verbatim>\<open>nil\<close>.\<close>

type_synonym goerror = "string option"

text \<open>
  Modelled from the spec: \<^verbatim>\<open>testutil.Ok\<close> is not under \<^verbatim>\<open>src/\<close>. Section 7 of the
  spec: every collaborator failure is surfaced immediately to the caller; the calling test
  fails. A non-nil error ends the run.
\<close>

definition Ok :: "goerror \<Rightarrow> failure + unit" where
  "Ok err = (case err of None \<Rightarrow> Inr () | Some msg \<Rightarrow> Inl (TestFatal msg))"


subsection \<open>Samples and the list iterator\<close>

text \<open>\<^verbatim>\<open>type sample struct { t int64; v float64 }\<close> with its methods \<^verbatim>\<open>T()\<close>, \<^verbatim>\<open>V()\<close>.\<close>

datatype 'v sample = Sample (T: int64) (V: 'v)

record 'v listSeriesIterator =
  list :: "'v sample list"
  idx :: int

definition newListSeriesIterator :: "'v sample list \<Rightarrow> 'v listSeriesIterator" where
  "newListSeriesIterator l = \<lparr>list = l, idx = - 1\<rparr>"

text \<open>Indexing a slice, \<^verbatim>\<open>xs[i]\<close>: a panic outside \<open>0 \<le> i < len xs\<close>.\<close>

definition index :: "'a list \<Rightarrow> int \<Rightarrow> failure + 'a" where
  "index xs i = (if 0 \<le> i \<and> i < int (length xs) then Inr (xs ! nat i) else Inl IndexOutOfRange)"

definition At :: "'v listSeriesIterator \<Rightarrow> failure + (int64 \<times> 'v)" where
  "At it = (case index (list it) (idx it) of
              Inl e \<Rightarrow> Inl e
            | Inr s \<Rightarrow> Inr (T s, V s))"

text \<open>\<^verbatim>\<open>Next\<close> returns its result and the iterator after the call.\<close>

definition Next :: "'v listSeriesIterator \<Rightarrow> bool \<times> 'v listSeriesIterator" where
  "Next it = (let it' = it\<lparr>idx := idx it + 1\<rparr>
              in (idx it' < int (length (list it')), it'))"

text \<open>
  \<^verbatim>\<open>sort.Search(n, f)\<close> of Go's standard library: the loop
  \<^verbatim>\<open>i, j := 0, n; for i < j { h := int(uint(i+j) >> 1); if !f(h) { i = h + 1 } else { j = h } }; return i\<close>.
  Inside the loop \<open>0 \<le> i < j\<close>, so \<open>h\<close> is \<open>(i + j) div 2\<close>. The predicate may panic
  (it indexes a slice), which ends the search.
\<close>

function Search_loop :: "(int \<Rightarrow> failure + bool) \<Rightarrow> int \<Rightarrow> int \<Rightarrow> failure + int" where
  "Search_loop f i j =
     (if i < j then
        (let h = (i + j) div 2 in
         case f h of
           Inl e \<Rightarrow> Inl e
         | Inr b \<Rightarrow> if \<not> b then Search_loop f (h + 1) j else Search_loop f i h)
      else Inr i)"
  by pat_completeness auto
termination
  by (relation "measure (\<lambda>(f, i, j). nat (j - i))") auto

declare Search_loop.simps [simp del]

definition Search :: "int \<Rightarrow> (int \<Rightarrow> failure + bool) \<Rightarrow> failure + int" where
  "Search n f = Search_loop f 0 n"

text \<open>
  \<^verbatim>\<open>Seek\<close>: the sentinel \<open>-1\<close> becomes \<open>0\<close>, then \<^verbatim>\<open>it.idx\<close> is assigned the result of
  \<^verbatim>\<open>sort.Search(len(it.list)-it.idx, ...)\<close>. The closure reads \<^verbatim>\<open>it.idx\<close> while the search
  runs, that is before the assignment.
\<close>

definition Seek :: "'v listSeriesIterator \<Rightarrow> int64 \<Rightarrow> failure + (bool \<times> 'v listSeriesIterator)" where
  "Seek it t =
     (let it1 = (if idx it = - 1 then it\<lparr>idx := 0\<rparr> else it) in
      case Search (int (length (list it1)) - idx it1)
             (\<lambda>i. case index (list it1) (i + idx it1) of
                     Inl e \<Rightarrow> Inl e
                   | Inr s \<Rightarrow> Inr (t \<le>s T s)) of
        Inl e \<Rightarrow> Inl e
      | Inr k \<Rightarrow> (let it2 = it1\<lparr>idx := k\<rparr>
                  in Inr (idx it2 < int (length (list it2)), it2)))"

text \<open>\<^verbatim>\<open>Err\<close> always returns \<^verbatim>\<open>nil\<close>.\<close>

definition Err :: "'v listSeriesIterator \<Rightarrow> goerror" where
  "Err it = None"

text \<open>\<open>Nexts n it\<close>: the result of the \<open>n\<close>-th of \<open>n\<close> successive calls of \<^verbatim>\<open>Next\<close>
  (\<open>n \<ge> 1\<close>), and the iterator after it.\<close>

fun Nexts :: "nat \<Rightarrow> 'v listSeriesIterator \<Rightarrow> bool \<times> 'v listSeriesIterator" where
  "Nexts 0 it = (False, it)"
| "Nexts (Suc n) it = Next (snd (Nexts n it))"

text \<open>The loop \<^verbatim>\<open>for it.Next() { t, v := it.At(); ... }\<close> collecting what it visits. Each
  round moves \<open>idx\<close> one step towards the length of the list.\<close>

function drain :: "'v listSeriesIterator \<Rightarrow> failure + (int64 \<times> 'v) list" where
  "drain it =
     (case Next it of
        (False, it') \<Rightarrow> Inr []
      | (True, it') \<Rightarrow>
          (case At it' of
             Inl e \<Rightarrow> Inl e
           | Inr tv \<Rightarrow> (case drain it' of Inl e \<Rightarrow> Inl e | Inr r \<Rightarrow> Inr (tv # r))))"
  by pat_completeness auto
termination
  by (relation "measure (\<lambda>it. nat (int (length (list it)) - idx it))")
     (auto simp: Next_def Let_def)

declare drain.simps [simp del]

subsection \<open>Decimal strings: \<^verbatim>\<open>strconv.Itoa\<close>\<close>

definition defaultLabelName :: string where "defaultLabelName = ''labelName''"

definition defaultLabelValue :: string where "defaultLabelValue = ''labelValue''"

text \<open>
  \<^verbatim>\<open>strconv.Itoa\<close> of Go's standard library: the decimal digits of the number, most
  significant first, taken from the table \<^verbatim>\<open>"0123456789"\<close>, after a \<^verbatim>\<open>-\<close> for a
  negative number.
\<close>

definition digit :: "nat \<Rightarrow> char" where
  "digit d = ''0123456789'' ! d"

function udigits :: "nat \<Rightarrow> string" where
  "udigits n = (if n < 10 then [digit n] else udigits (n div 10) @ [digit (n mod 10)])"
  by pat_completeness auto
termination
  by (relation "measure id") auto

declare udigits.simps [simp del]

definition Itoa :: "int \<Rightarrow> string" where
  "Itoa i = (if i < 0 then CHR ''-'' # udigits (nat (- i)) else udigits (nat i))"

text \<open>Reading a digit string back; the left inverse of \<open>udigits\<close>.\<close>

definition dval :: "char \<Rightarrow> nat" where
  "dval c = of_char c - 48"

definition unum :: "string \<Rightarrow> nat" where
  "unum s = foldl (\<lambda>a c. 10 * a + dval c) 0 s"

lemma digit_cases: "d < 10 \<Longrightarrow> d \<in> {0, 1, 2, 3, 4, 5, 6, 7, 8, 9::nat}"
  by auto

lemma dval_digit: "d < 10 \<Longrightarrow> dval (digit d) = d"
  by (drule digit_cases) (auto simp: dval_def digit_def)

lemma unum_udigits: "unum (udigits n) = n"
proof (induction n rule: udigits.induct)
  case (1 n)
  show ?case
  proof (cases "n < 10")
    case True
    then show ?thesis by (subst udigits.simps) (simp add: unum_def dval_digit)
  next
    case False
    then have "unum (udigits (n div 10)) = n div 10" using 1 by simp
    then show ?thesis using False
      by (subst udigits.simps) (simp add: unum_def dval_digit)
  qed
qed

lemma udigits_inj: "udigits m = udigits n \<Longrightarrow> m = n"
  by (metis unum_udigits)

lemma udigits_chars: "c \<in> set (udigits n) \<Longrightarrow> \<exists>d<10. c = digit d"
proof (induction n rule: udigits.induct)
  case (1 n)
  show ?case
  proof (cases "n < 10")
    case True
    then show ?thesis using 1(2) by (subst (asm) udigits.simps) auto
  next
    case False
    from 1(2) have "c \<in> set (udigits (n div 10)) \<or> c = digit (n mod 10)"
      using False by (subst (asm) udigits.simps) auto
    then show ?thesis using 1(1) False by auto (metis mod_less_divisor zero_less_numeral)
  qed
qed

lemma udigits_nonempty: "udigits n \<noteq> []"
  by (subst udigits.simps) simp

lemma minus_not_digit: "d < 10 \<Longrightarrow> digit d \<noteq> CHR ''-''"
  by (drule digit_cases) (auto simp: digit_def)

lemma Itoa_inj: "Itoa i = Itoa j \<Longrightarrow> i = j"
proof -
  assume eq: "Itoa i = Itoa j"
  have no_minus: "\<And>n r. udigits n \<noteq> CHR ''-'' # r"
  proof
    fix n r assume "udigits n = CHR ''-'' # r"
    then have "CHR ''-'' \<in> set (udigits n)" by simp
    then obtain d where "d < 10" "CHR ''-'' = digit d"
      using udigits_chars[of "CHR ''-''" n] by auto
    then show False using minus_not_digit[of d] by simp
  qed
  show ?thesis
  proof (cases "i < 0")
    case True
    show ?thesis
    proof (cases "j < 0")
      case True
      with \<open>i < 0\<close> eq have "nat (- i) = nat (- j)"
        by (auto simp: Itoa_def dest: udigits_inj)
      with True \<open>i < 0\<close> show ?thesis by simp
    next
      case False
      with \<open>i < 0\<close> eq no_minus[of "nat j" "udigits (nat (- i))"] show ?thesis
        by (simp add: Itoa_def)
    qed
  next
    case False
    show ?thesis
    proof (cases "j < 0")
      case True
      with \<open>\<not> i < 0\<close> eq no_minus[of "nat i" "udigits (nat (- j))"] show ?thesis
        by (simp add: Itoa_def)
    next
      case False
      with \<open>\<not> i < 0\<close> eq have "nat i = nat j"
        by (auto simp: Itoa_def dest: udigits_inj)
      with False \<open>\<not> i < 0\<close> show ?thesis by simp
    qed
  qed
qed

lemma Itoa_nonempty: "Itoa i \<noteq> []"
  by (simp add: Itoa_def udigits_nonempty)


subsection \<open>Label maps and series\<close>

text \<open>
  A Go \<^verbatim>\<open>map[string]string\<close> is an association list whose keys are kept distinct:
  \<^verbatim>\<open>m[k] = v\<close> is \<open>AList.update\<close>, \<^verbatim>\<open>len(m)\<close> counts the distinct keys, and a lookup is
  \<open>map_of\<close>. The order of the list has no meaning.
\<close>

type_synonym gomap = "(string \<times> string) list"

definition map_len :: "gomap \<Rightarrow> int" where
  "map_len m = int (length (remdups (map fst m)))"

definition map_set :: "string \<Rightarrow> string \<Rightarrow> gomap \<Rightarrow> gomap" where
  "map_set k v m = AList.update k v m"

text \<open>
  Modelled from the spec: package \<^verbatim>\<open>labels\<close> is not under \<^verbatim>\<open>src/\<close>. Section 3 of the
  spec: a label set is a mapping from label name to label value with unique keys, and
  \<^verbatim>\<open>labels.FromMap\<close> only puts the pairs of the map into the canonical order. The pairs
  are kept as they are.
\<close>

type_synonym Labels = gomap

definition FromMap :: "gomap \<Rightarrow> Labels" where
  "FromMap l = l"

text \<open>
  \<^verbatim>\<open>mockSeries\<close> holds two closures; \<^verbatim>\<open>tsdb.Series\<close> is an interface, whose zero value
  \<^verbatim>\<open>nil\<close> is \<open>None\<close>. A method call on \<^verbatim>\<open>nil\<close> panics.
\<close>

record 'v mockSeries =
  labels :: "unit \<Rightarrow> Labels"
  iterator :: "unit \<Rightarrow> 'v listSeriesIterator"

type_synonym 'v Series = "'v mockSeries option"

definition newSeries :: "gomap \<Rightarrow> 'v sample list \<Rightarrow> 'v Series" where
  "newSeries l s = Some \<lparr>labels = (\<lambda>_. FromMap l), iterator = (\<lambda>_. newListSeriesIterator s)\<rparr>"

definition Labels :: "'v Series \<Rightarrow> failure + Labels" where
  "Labels m = (case m of None \<Rightarrow> Inl NilDereference | Some x \<Rightarrow> Inr (labels x ()))"

definition Iterator :: "'v Series \<Rightarrow> failure + 'v listSeriesIterator" where
  "Iterator m = (case m of None \<Rightarrow> Inl NilDereference | Some x \<Rightarrow> Inr (iterator x ()))"


subsection \<open>\<^verbatim>\<open>GenSeries\<close>\<close>

text \<open>
  The label loop \<^verbatim>\<open>for j := 1; len(lbls) < labelCount; j++\<close>. A round that stores a key
  already present does not make the map longer; the loop still ends, because the keys
  \<^verbatim>\<open>"labelName" + Itoa(j)\<close> are pairwise different and only finitely many of them can be in
  the map.
\<close>

lemma map_len_card: "map_len m = int (card (fst ` set m))"
  by (simp add: map_len_def length_remdups_card_conv)

lemma map_len_set:
  "map_len (map_set k v m) = (if k \<in> fst ` set m then map_len m else map_len m + 1)"
  by (simp add: map_len_card map_set_def dom_update insert_absorb)

lemma keys_map_set: "fst ` set (map_set k v m) = insert k (fst ` set m)"
  by (simp add: map_set_def dom_update)

definition later_keys :: "gomap \<Rightarrow> int \<Rightarrow> int set" where
  "later_keys m j = {j'. j \<le> j' \<and> defaultLabelName @ Itoa j' \<in> fst ` set m}"

lemma finite_later_keys: "finite (later_keys m j)"
proof -
  have "inj (\<lambda>j'. defaultLabelName @ Itoa j')"
    by (rule injI) (simp add: Itoa_inj)
  then have "finite ((\<lambda>j'. defaultLabelName @ Itoa j') -` (fst ` set m))"
    by (intro finite_vimageI) simp_all
  moreover have "later_keys m j \<subseteq> (\<lambda>j'. defaultLabelName @ Itoa j') -` (fst ` set m)"
    by (auto simp: later_keys_def)
  ultimately show ?thesis by (rule rev_finite_subset)
qed

lemma later_keys_step:
  assumes "defaultLabelName @ Itoa j \<in> fst ` set m"
  shows "card (later_keys (map_set (defaultLabelName @ Itoa j) v m) (j + 1)) < card (later_keys m j)"
proof -
  have "later_keys (map_set (defaultLabelName @ Itoa j) v m) (j + 1) \<subseteq> later_keys m j"
    using assms by (auto simp: later_keys_def keys_map_set insert_absorb)
  moreover have "j \<in> later_keys m j"
    using assms by (simp add: later_keys_def)
  moreover have "j \<notin> later_keys (map_set (defaultLabelName @ Itoa j) v m) (j + 1)"
    by (simp add: later_keys_def)
  ultimately have "later_keys (map_set (defaultLabelName @ Itoa j) v m) (j + 1) \<subset> later_keys m j"
    by blast
  then show ?thesis
    by (rule psubset_card_mono[OF finite_later_keys])
qed

function label_loop :: "int \<Rightarrow> gomap \<Rightarrow> int \<Rightarrow> gomap" where
  "label_loop labelCount lbls j =
     (if map_len lbls < labelCount
      then label_loop labelCount
             (map_set (defaultLabelName @ Itoa j) (defaultLabelValue @ Itoa j) lbls) (j + 1)
      else lbls)"
  by pat_completeness auto
termination
proof (relation "(\<lambda>(k, m, j). nat (k - map_len m)) <*mlex*> measure (\<lambda>(k, m, j). card (later_keys m j))")
  show "wf ((\<lambda>(k, m, j). nat (k - map_len m)) <*mlex*> measure (\<lambda>(k, m, j). card (later_keys m j)))"
    by (simp add: wf_mlex)
next
  fix labelCount :: int and lbls :: gomap and j :: int
  assume lt: "map_len lbls < labelCount"
  show "((labelCount, map_set (defaultLabelName @ Itoa j) (defaultLabelValue @ Itoa j) lbls, j + 1),
          (labelCount, lbls, j))
        \<in> (\<lambda>(k, m, j). nat (k - map_len m)) <*mlex*> measure (\<lambda>(k, m, j). card (later_keys m j))"
  proof (cases "defaultLabelName @ Itoa j \<in> fst ` set lbls")
    case True
    then show ?thesis
      by (intro mlex_leq) (simp_all add: map_len_set later_keys_step)
  next
    case False
    then show ?thesis using lt
      by (intro mlex_less) (simp add: map_len_set)
  qed
qed

declare label_loop.simps [simp del]

text \<open>
  The sample loop \<^verbatim>\<open>for t := mint; t < maxt; t++\<close>, appending one sample per round with a
  value drawn from the random source. \<^verbatim>\<open>rand.Float64()\<close> reads and advances a global
  state: \<open>Float64\<close> is any function from the state of the source to a value and the next
  state. Inside the loop \<open>t < maxt\<close>, so \<open>t + 1\<close> does not wrap.
\<close>

lemma sint_succ: "t <s maxt \<Longrightarrow> sint (t + 1) = sint t + 1" for t maxt :: int64
proof -
  assume "t <s maxt"
  then have "sint t < sint maxt" by (simp add: word_sless_alt)
  moreover have "sint maxt < 2 ^ 63" using sint_lt[of maxt] by simp
  moreover have "- (2 ^ 63) \<le> sint t" using sint_ge[of t] by simp
  ultimately show ?thesis
    by (simp add: sint_word_ariths signed_take_bit_int_eq_self)
qed

text \<open>
  The run-time checks of Go's slices. \<^verbatim>\<open>make([]T, n)\<close> panics for a negative length and
  \<^verbatim>\<open>make([]T, 0, c)\<close> for a negative capacity; both also panic when the size is more than
  the runtime accepts, which for the 16-byte interface values stored here is
  \<^verbatim>\<open>maxAlloc / 16\<close> elements (\<open>maxElems\<close>). \<^verbatim>\<open>append\<close> on a full slice asks the runtime
  for a new capacity (\<open>nextcap\<close>, given the new length and the old capacity) and panics
  when that capacity is more than \<open>maxElems\<close>. Both numbers belong to the Go runtime
  and the platform, not to this file: they are parameters. A slice under construction is
  its list of elements together with its capacity.
\<close>

record runtime =
  maxElems :: int
  nextcap :: "int \<Rightarrow> int \<Rightarrow> int"

definition append_slice :: "runtime \<Rightarrow> 'a list \<Rightarrow> int \<Rightarrow> 'a \<Rightarrow> failure + ('a list \<times> int)" where
  "append_slice R xs c x =
     (if int (length xs) < c then Inr (xs @ [x], c)
      else (let c' = nextcap R (int (length xs) + 1) c
            in if maxElems R < c' then Inl GrowsliceOutOfRange else Inr (xs @ [x], c')))"

function sample_loop ::
  "runtime \<Rightarrow> ('r \<Rightarrow> 'v \<times> 'r) \<Rightarrow> int64 \<Rightarrow> int64 \<Rightarrow> 'v sample list \<Rightarrow> int \<Rightarrow> 'r
     \<Rightarrow> failure + ('v sample list \<times> 'r)" where
  "sample_loop R Float64 maxt t samples c r =
     (if t <s maxt
      then (case Float64 r of
              (x, r') \<Rightarrow>
                (case append_slice R samples c (Sample t x) of
                   Inl e \<Rightarrow> Inl e
                 | Inr (samples', c') \<Rightarrow> sample_loop R Float64 maxt (t + 1) samples' c' r'))
      else Inr (samples, r))"
  by pat_completeness auto
termination
  by (relation "measure (\<lambda>(R, F, maxt, t, samples, c, r). nat (sint maxt - sint t))")
     (auto simp: sint_succ word_sless_alt)

declare sample_loop.simps [simp del]

text \<open>
  The capacity of the sample slice is the \<^verbatim>\<open>int64\<close> expression \<^verbatim>\<open>maxt-mint+1\<close>, which
  wraps. \<^verbatim>\<open>xs[i] = x\<close> panics outside the slice.
\<close>

definition make_len :: "runtime \<Rightarrow> int \<Rightarrow> 'a \<Rightarrow> failure + 'a list" where
  "make_len R n z =
     (if n < 0 \<or> maxElems R < n then Inl MakesliceLenOutOfRange else Inr (replicate (nat n) z))"

definition make_cap :: "runtime \<Rightarrow> int64 \<Rightarrow> failure + ('a list \<times> int)" where
  "make_cap R c =
     (if c <s 0 \<or> maxElems R < sint c then Inl MakesliceCapOutOfRange else Inr ([], sint c))"

definition store :: "'a list \<Rightarrow> int \<Rightarrow> 'a \<Rightarrow> failure + 'a list" where
  "store xs i x = (if 0 \<le> i \<and> i < int (length xs) then Inr (xs[nat i := x]) else Inl IndexOutOfRange)"

function series_loop ::
  "runtime \<Rightarrow> ('r \<Rightarrow> 'v \<times> 'r) \<Rightarrow> int \<Rightarrow> int \<Rightarrow> int64 \<Rightarrow> int64 \<Rightarrow> int \<Rightarrow> 'v Series list \<Rightarrow> 'r
     \<Rightarrow> failure + ('v Series list \<times> 'r)" where
  "series_loop R Float64 totalSeries labelCount mint maxt i series r =
     (if i < totalSeries then
        (let lbls = map_set defaultLabelName (Itoa i) [];
             lbls = label_loop labelCount lbls 1
         in case make_cap R (maxt - mint + 1) of
              Inl e \<Rightarrow> Inl e
            | Inr (samples, c) \<Rightarrow>
                (case sample_loop R Float64 maxt mint samples c r of
                   Inl e \<Rightarrow> Inl e
                 | Inr (samples, r') \<Rightarrow>
                     (case store series i (newSeries lbls samples) of
                        Inl e \<Rightarrow> Inl e
                      | Inr series' \<Rightarrow>
                          series_loop R Float64 totalSeries labelCount mint maxt (i + 1) series' r')))
      else Inr (series, r))"
  by pat_completeness auto
termination
  by (relation "measure (\<lambda>(R, F, totalSeries, labelCount, mint, maxt, i, series, r). nat (totalSeries - i))")
     auto

declare series_loop.simps [simp del]

definition GenSeries ::
  "runtime \<Rightarrow> ('r \<Rightarrow> 'v \<times> 'r) \<Rightarrow> 'r \<Rightarrow> int \<Rightarrow> int \<Rightarrow> int64 \<Rightarrow> int64
     \<Rightarrow> failure + ('v Series list \<times> 'r)" where
  "GenSeries R Float64 r totalSeries labelCount mint maxt =
     (if totalSeries = 0 \<or> labelCount = 0 then Inr ([], r)
      else case make_len R totalSeries None of
             Inl e \<Rightarrow> Inl e
           | Inr series \<Rightarrow> series_loop R Float64 totalSeries labelCount mint maxt 0 series r)"


subsection \<open>\<^verbatim>\<open>createHead\<close> and \<^verbatim>\<open>CreateBlock\<close>\<close>

text \<open>
  The head and its appender (\<^verbatim>\<open>tsdb.Head\<close>, \<^verbatim>\<open>tsdb.Appender\<close>) are collaborators that
  are not under \<^verbatim>\<open>src/\<close>: they are a record of operations over a state \<open>'a\<close>, which
  stands for the head together with its open appender. Every operation returns its Go
  results and the state after the call. \<^verbatim>\<open>head.Close()\<close>, deferred in \<^verbatim>\<open>createHead\<close>,
  releases resources and is not observed by anything here.
\<close>

type_synonym uint64 = "64 word"

record ('a, 'v) Head =
  NewHead :: "'a \<times> goerror"
  AddFast :: "'a \<Rightarrow> uint64 \<Rightarrow> int64 \<Rightarrow> 'v \<Rightarrow> goerror \<times> 'a"
  Add :: "'a \<Rightarrow> Labels \<Rightarrow> int64 \<Rightarrow> 'v \<Rightarrow> (uint64 \<times> goerror) \<times> 'a"
  Commit :: "'a \<Rightarrow> goerror \<times> 'a"
  MinTime :: "'a \<Rightarrow> int64"
  MaxTime :: "'a \<Rightarrow> int64"

text \<open>
  The inner loop \<^verbatim>\<open>for it.Next() { ... }\<close> of \<^verbatim>\<open>createHead\<close> followed by
  \<^verbatim>\<open>Ok(tb, it.Err())\<close>. With a reference other than 0 the fast append is tried first; when
  it succeeds the round ends (\<^verbatim>\<open>continue\<close>); otherwise, and for the reference 0, the full
  append follows, its reference is kept whatever its error, and \<^verbatim>\<open>Ok\<close> ends the run on
  an error.
\<close>

function append_loop ::
  "('a, 'v) Head \<Rightarrow> 'v Series \<Rightarrow> 'v listSeriesIterator \<Rightarrow> uint64 \<Rightarrow> 'a \<Rightarrow> (failure + unit) \<times> 'a" where
  "append_loop H s it ref a =
     (case Next it of
        (False, it') \<Rightarrow> (Ok (Err it'), a)
      | (True, it') \<Rightarrow>
          (case At it' of
             Inl e \<Rightarrow> (Inl e, a)
           | Inr (t, v) \<Rightarrow>
               (case (if ref \<noteq> 0
                      then (case AddFast H a ref t v of (err, a1) \<Rightarrow> (err = None, a1))
                      else (False, a)) of
                  (True, a1) \<Rightarrow> append_loop H s it' ref a1
                | (False, a1) \<Rightarrow>
                    (case Labels s of
                       Inl e \<Rightarrow> (Inl e, a1)
                     | Inr l \<Rightarrow>
                         (case Add H a1 l t v of
                            ((ref', err), a2) \<Rightarrow>
                              (case Ok err of
                                 Inl e \<Rightarrow> (Inl e, a2)
                               | Inr _ \<Rightarrow> append_loop H s it' ref' a2))))))"
  by pat_completeness auto
termination
  by (relation "measure (\<lambda>(H, s, it, ref, a). nat (int (length (list it)) - idx it))")
     (auto simp: Next_def Let_def)

declare append_loop.simps [simp del]

text \<open>The outer loop \<^verbatim>\<open>for _, s := range series\<close>: a fresh reference 0 and a fresh
  iterator for every series.\<close>

fun series_loop_appends :: "('a, 'v) Head \<Rightarrow> 'v Series list \<Rightarrow> 'a \<Rightarrow> (failure + unit) \<times> 'a" where
  "series_loop_appends H [] a = (Inr (), a)"
| "series_loop_appends H (s # ss) a =
     (case Iterator s of
        Inl e \<Rightarrow> (Inl e, a)
      | Inr it \<Rightarrow>
          (case append_loop H s it 0 a of
             (Inl e, a') \<Rightarrow> (Inl e, a')
           | (Inr _, a') \<Rightarrow> series_loop_appends H ss a'))"

definition createHead :: "('a, 'v) Head \<Rightarrow> 'v Series list \<Rightarrow> (failure + unit) \<times> 'a" where
  "createHead H series =
     (case NewHead H of
        (head, err) \<Rightarrow>
          (case Ok err of
             Inl e \<Rightarrow> (Inl e, head)
           | Inr _ \<Rightarrow>
               (case series_loop_appends H series head of
                  (Inl e, a) \<Rightarrow> (Inl e, a)
                | (Inr _, a) \<Rightarrow> (case Commit H a of (err, a') \<Rightarrow> (Ok err, a')))))"

text \<open>
  The collaborators of \<^verbatim>\<open>CreateBlock\<close>: the compactor (\<^verbatim>\<open>tsdb.NewLeveledCompactor\<close>
  and its \<^verbatim>\<open>Write\<close>, which returns the identifier of the block and an error), and the
  two calls into the operating system, \<^verbatim>\<open>os.MkdirAll\<close> and \<^verbatim>\<open>filepath.Join\<close>.
\<close>

record 'a Compactor =
  NewLeveledCompactor :: goerror
  MkdirAll :: "string \<Rightarrow> goerror"
  Write :: "string \<Rightarrow> 'a \<Rightarrow> int64 \<Rightarrow> int64 \<Rightarrow> string \<times> goerror"
  Join :: "string \<Rightarrow> string \<Rightarrow> string"

definition CreateBlock :: "('a, 'v) Head \<Rightarrow> 'a Compactor \<Rightarrow> string \<Rightarrow> 'v Series list \<Rightarrow> failure + string" where
  "CreateBlock H C dir series =
     (case createHead H series of
        (Inl e, head) \<Rightarrow> Inl e
      | (Inr _, head) \<Rightarrow>
          (case Ok (NewLeveledCompactor C) of
             Inl e \<Rightarrow> Inl e
           | Inr _ \<Rightarrow>
               (case Ok (MkdirAll C dir) of
                  Inl e \<Rightarrow> Inl e
                | Inr _ \<Rightarrow>
                    (case Write C dir head (MinTime H head) (MaxTime H head + 1) of
                       (ulid, err) \<Rightarrow>
                         (case Ok err of
                            Inl e \<Rightarrow> Inl e
                          | Inr _ \<Rightarrow> Inr (Join C dir ulid))))))"


subsection \<open>Notions used to state the properties\<close>

text \<open>The key and the entry that the label loop writes in round \<open>j\<close>.\<close>

definition label_key :: "int \<Rightarrow> string" where
  "label_key j = defaultLabelName @ Itoa j"

definition label_entry :: "int \<Rightarrow> string \<times> string" where
  "label_entry j = (defaultLabelName @ Itoa j, defaultLabelValue @ Itoa j)"

text \<open>The labels of fixture \<open>i\<close> and the timestamps of every fixture, in closed form.\<close>

definition expected_labels :: "int \<Rightarrow> int \<Rightarrow> gomap" where
  "expected_labels i labelCount = (defaultLabelName, Itoa i) # map label_entry [1..labelCount - 1]"

definition expected_times :: "int64 \<Rightarrow> int64 \<Rightarrow> int64 list" where
  "expected_times mint maxt = map word_of_int [sint mint..sint maxt - 1]"

text \<open>What a fixture shows apart from its sample values: its labels and its timestamps.\<close>

definition skeleton :: "'v Series \<Rightarrow> (failure + Labels) \<times> (failure + int64 list)" where
  "skeleton f = (Labels f, map_sum id (\<lambda>it. map T (list it)) (Iterator f))"

definition fixture_ok :: "int \<Rightarrow> int64 \<Rightarrow> int64 \<Rightarrow> 'v Series list \<Rightarrow> nat \<Rightarrow> bool" where
  "fixture_ok k a b fs p \<longleftrightarrow>
     (\<exists>smp. fs ! p = newSeries (expected_labels (int p) k) smp \<and> map T smp = expected_times a b)"

text \<open>The smallest and the largest \<^verbatim>\<open>int64\<close>.\<close>

definition max_int64 :: int64 where "max_int64 = 0x7FFFFFFFFFFFFFFF"

definition min_int64 :: int64 where "min_int64 = - 0x8000000000000000"

text \<open>\<open>cap_ok\<close>: \<^verbatim>\<open>make\<close> accepts the capacity \<^verbatim>\<open>maxt-mint+1\<close>. \<open>fits\<close>: the samples of
  the range do not outgrow that capacity.\<close>

definition cap_ok :: "runtime \<Rightarrow> int64 \<Rightarrow> int64 \<Rightarrow> bool" where
  "cap_ok R mint maxt \<longleftrightarrow> \<not> maxt - mint + 1 <s 0 \<and> sint (maxt - mint + 1) \<le> maxElems R"

definition fits :: "int64 \<Rightarrow> int64 \<Rightarrow> bool" where
  "fits mint maxt \<longleftrightarrow> max 0 (sint maxt - sint mint) \<le> sint (maxt - mint + 1)"

text \<open>
  A recording head: it behaves as the head \<open>H\<close> it wraps and keeps, next to the state of
  \<open>H\<close>, the list of the calls it received, each with its success.
\<close>

datatype 'v call =
    FastAppend uint64 int64 'v bool
  | FullAppend Labels int64 'v bool
  | Committed bool


text \<open>The samples a list of calls appended through the full and through the fast path,
  and the calls that are commits.\<close>

fun full_append :: "'v call \<Rightarrow> (Labels \<times> int64 \<times> 'v) list" where
  "full_append (FullAppend l t v ok) = (if ok then [(l, t, v)] else [])"
| "full_append _ = []"

fun fast_append :: "'v call \<Rightarrow> (int64 \<times> 'v) list" where
  "fast_append (FastAppend ref t v ok) = (if ok then [(t, v)] else [])"
| "fast_append _ = []"


definition full_appends :: "'v call list \<Rightarrow> (Labels \<times> int64 \<times> 'v) list" where
  "full_appends tr = concat (map full_append tr)"

definition fast_appends :: "'v call list \<Rightarrow> (int64 \<times> 'v) list" where
  "fast_appends tr = concat (map fast_append tr)"


definition fixture_times :: "(gomap \<times> 'v sample list) list \<Rightarrow> int64 list" where
  "fixture_times fixtures = concat (map (\<lambda>f. map T (snd f)) fixtures)"

text \<open>The greater and the smaller of two \<^verbatim>\<open>int64\<close>, and the state of the buffer of the
  spec: the references it handed out and the samples appended, in order.\<close>

definition smax :: "int64 \<Rightarrow> int64 \<Rightarrow> int64" where
  "smax a b = (if a \<le>s b then b else a)"

definition smin :: "int64 \<Rightarrow> int64 \<Rightarrow> int64" where
  "smin a b = (if a \<le>s b then a else b)"

record 'v buffer =
  refs :: "Labels list"
  appended :: "(Labels \<times> int64 \<times> 'v) list"

definition observed :: "'v buffer \<Rightarrow> int64 list" where
  "observed a = map (\<lambda>(l, t, v). t) (appended a)"

definition ref_of :: "Labels \<Rightarrow> Labels list \<Rightarrow> uint64" where
  "ref_of l rs = of_nat (Suc (length (takeWhile (\<lambda>x. x \<noteq> l) rs)))"

text \<open>
  Modelled from the spec: the mutable ingestion buffer (\<^verbatim>\<open>tsdb.Head\<close> and its appender)
  is not under \<^verbatim>\<open>src/\<close>. Sections 3, 4.3 and 6 of the spec: the full append always
  succeeds in appending and yields a fresh or stable reference for its series (here the
  position of the series among those seen so far, counted from 1); the fast append is valid only for a reference that a full append returned
  in the same session, and fails otherwise; the commit succeeds; \<^verbatim>\<open>MinTime\<close> and
  \<^verbatim>\<open>MaxTime\<close> are the least and the greatest observed timestamp (for a buffer without
  samples the largest and the smallest \<^verbatim>\<open>int64\<close>).
\<close>

definition spec_head :: "('v buffer, 'v) Head" where
  "spec_head = \<lparr>
     NewHead = (\<lparr>refs = [], appended = []\<rparr>, None),
     AddFast = (\<lambda>a ref t v.
        if ref \<noteq> 0 \<and> unat ref \<le> length (refs a)
        then (None, a\<lparr>appended := appended a @ [(refs a ! (unat ref - 1), t, v)]\<rparr>)
        else (Some ''unknown reference'', a)),
     Add = (\<lambda>a l t v.
        let rs = (if l \<in> set (refs a) then refs a else refs a @ [l])
        in ((ref_of l rs, None), a\<lparr>refs := rs, appended := appended a @ [(l, t, v)]\<rparr>)),
     Commit = (\<lambda>a. (None, a)),
     MinTime = (\<lambda>a. fold smin (observed a) max_int64),
     MaxTime = (\<lambda>a. fold smax (observed a) min_int64) \<rparr>"

text \<open>What \<^verbatim>\<open>CreateBlock\<close> does with the result of \<^verbatim>\<open>compactor.Write\<close>.\<close>

definition finish_block :: "'a Compactor \<Rightarrow> string \<Rightarrow> string \<times> goerror \<Rightarrow> failure + string" where
  "finish_block C dir w = (case w of (ulid, err) \<Rightarrow>
      (case Ok err of Inl e \<Rightarrow> Inl e | Inr _ \<Rightarrow> Inr (Join C dir ulid)))"

text \<open>A random source for concrete runs: the state counts the draws.\<close>

definition halves :: "nat \<Rightarrow> real \<times> nat" where
  "halves n = (1 / 2 ^ Suc n, Suc n)"

definition three_labels :: gomap where
  "three_labels = [(''labelName'', ''0''), (''labelName1'', ''labelValue1''),
                   (''labelName2'', ''labelValue2'')]"



text \<open>A fixture of five samples at the timestamps 0, 1, 2, 3, 4, used for concrete runs.\<close>

definition five_samples :: "real sample list" where
  "five_samples = [Sample 0 0.5, Sample 1 0.25, Sample 2 0.75, Sample 3 0.125, Sample 4 0.5]"

text \<open>
  A runtime for concrete runs: \<^verbatim>\<open>maxAlloc\<close> of 64-bit Linux, \<open>2 ^ 48\<close> bytes, and
  doubling as the growth rule. No concrete run below grows a slice.
\<close>

definition linux_amd64 :: runtime where
  "linux_amd64 = \<lparr>maxElems = 2 ^ 44, nextcap = (\<lambda>newLen oldCap. max newLen (2 * oldCap))\<rparr>"


definition two_fixtures :: "(gomap \<times> real sample list) list" where
  "two_fixtures = [([(''labelName'', ''0'')], [Sample 0 0.5, Sample 1 0.25]),
                   ([(''labelName'', ''1'')], [Sample 0 0.125])]"

text \<open>A compactor that names the block after the time range it is asked to write.\<close>

definition range_compactor :: "'a Compactor" where
  "range_compactor = \<lparr>
     NewLeveledCompactor = None,
     MkdirAll = (\<lambda>dir. None),
     Write = (\<lambda>dir head mint maxt. (Itoa (sint mint) @ ''..'' @ Itoa (sint maxt), None)),
     Join = (\<lambda>dir name. dir @ ''/'' @ name) \<rparr>"

text \<open>A series whose last sample is at the largest \<^verbatim>\<open>int64\<close>.\<close>

definition last_instant :: "real Series list" where
  "last_instant = [newSeries [(''labelName'', ''0'')] [Sample 0 0.5, Sample 0x7FFFFFFFFFFFFFFF 0.25]]"


section \<open>Properties of the list iterator\<close>

lemma Nexts_state:
  "snd (Nexts n (newListSeriesIterator S)) = \<lparr>list = S, idx = int n - 1\<rparr>"
  by (induction n) (simp_all add: newListSeriesIterator_def Next_def Let_def)

lemma Nexts_result:
  "fst (Nexts (Suc n) (newListSeriesIterator S)) = (n < length S)"
  by (simp add: Nexts_state Next_def Let_def)

lemma drain_from:
  "k \<le> length S \<Longrightarrow>
   drain \<lparr>list = S, idx = int k - 1\<rparr> = Inr (map (\<lambda>s. (T s, V s)) (drop k S))"
proof (induction "length S - k" arbitrary: k)
  case 0
  then have "k = length S" by simp
  then show ?case
    by (subst drain.simps) (simp add: Next_def Let_def)
next
  case (Suc d)
  then have lt: "k < length S" by simp
  have step: "drain \<lparr>list = S, idx = int (Suc k) - 1\<rparr>
              = Inr (map (\<lambda>s. (T s, V s)) (drop (Suc k) S))"
    using Suc.hyps(1)[of "Suc k"] Suc.hyps(2) lt by simp
  have dr: "drop k S = S ! k # drop (Suc k) S"
    using lt by (simp add: Cons_nth_drop_Suc)
  show ?case
    using lt step
    by (subst drain.simps) (simp add: Next_def Let_def At_def index_def dr)
qed

text \<open>
  Claim C6. On a fresh iterator over a sample sequence \<open>S\<close> (empty or not), the
  \<open>(n+1)\<close>-th call of \<^verbatim>\<open>Next\<close> succeeds exactly when \<open>n < len S\<close>: the first
  \<open>len S\<close> calls succeed and every later one fails. Counting the successful calls from
  \<open>0\<close>, \<^verbatim>\<open>At\<close> after the \<open>i\<close>-th successful call returns \<open>S[i]\<close>, and the loop
  \<^verbatim>\<open>for it.Next() { it.At() }\<close> visits exactly the elements of \<open>S\<close>, each once, in order.
\<close>

theorem Next_visits_all:
  "(\<forall>n. fst (Nexts (Suc n) (newListSeriesIterator S)) = (n < length S))
   \<and> (\<forall>i<length S. At (snd (Nexts (Suc i) (newListSeriesIterator S))) = Inr (T (S ! i), V (S ! i)))
   \<and> drain (newListSeriesIterator S) = Inr (map (\<lambda>s. (T s, V s)) S)"
proof (intro conjI allI impI)
  fix n show "fst (Nexts (Suc n) (newListSeriesIterator S)) = (n < length S)"
    by (rule Nexts_result)
next
  fix i assume "i < length S"
  then show "At (snd (Nexts (Suc i) (newListSeriesIterator S))) = Inr (T (S ! i), V (S ! i))"
    using Nexts_state[of "Suc i" S] by (simp add: At_def index_def del: Nexts.simps)
next
  show "drain (newListSeriesIterator S) = Inr (map (\<lambda>s. (T s, V s)) S)"
    using drain_from[of 0 S] by (simp add: newListSeriesIterator_def)
qed

theorem Next_visits_all_witness:
  "(3::nat) < length five_samples
   \<and> At (snd (Nexts (Suc 3) (newListSeriesIterator five_samples))) = Inr (3, 0.125)
   \<and> fst (Nexts (Suc 4) (newListSeriesIterator five_samples))
   \<and> \<not> fst (Nexts (Suc 5) (newListSeriesIterator five_samples))
   \<and> drain (newListSeriesIterator five_samples)
       = Inr [(0, 0.5), (1, 0.25), (2, 0.75), (3, 0.125), (4, 0.5)]"
proof -
  note all = Next_visits_all[of five_samples]
  note calls = all[THEN conjunct1, rule_format]
  note visit = all[THEN conjunct2, THEN conjunct1, rule_format]
  note loop = all[THEN conjunct2, THEN conjunct2]
  have len: "length five_samples = 5" by (simp add: five_samples_def)
  have at3: "five_samples ! 3 = Sample 3 0.125" by (simp add: five_samples_def)
  have "map (\<lambda>s. (T s, V s)) five_samples = [(0, 0.5), (1, 0.25), (2, 0.75), (3, 0.125), (4, 0.5)]"
    by (simp add: five_samples_def)
  with loop visit[of 3] calls[of 4] calls[of 5] len show ?thesis
    by (simp add: at3 del: Nexts.simps)
qed

text \<open>
  Claim C1. \<^verbatim>\<open>Seek\<close> searches the window that starts at the cursor, as its comment says,
  but stores the offset inside the window as the new position. On the timestamps
  0, 1, 2, 3, 4, a first \<^verbatim>\<open>Seek(3)\<close> on a fresh iterator lands on index 3; the following
  \<^verbatim>\<open>Seek(4)\<close> returns true and leaves the cursor on index 1, whose timestamp is 1: an
  index below the previous position, and not the first sample at or after the target.
\<close>

theorem Seek_lands_before_cursor:
  "Seek (newListSeriesIterator five_samples) 3 = Inr (True, \<lparr>list = five_samples, idx = 3\<rparr>)
   \<and> Seek \<lparr>list = five_samples, idx = 3\<rparr> 4 = Inr (True, \<lparr>list = five_samples, idx = 1\<rparr>)
   \<and> At \<lparr>list = five_samples, idx = 1\<rparr> = Inr (1, 0.25)"
  by (simp add: Seek_def Search_def Search_loop.simps index_def At_def five_samples_def
        newListSeriesIterator_def word_sle_eq)

text \<open>
  Claim C2. With the cursor on index 3 of the same fixture (timestamp 3), \<^verbatim>\<open>Seek(2)\<close> asks
  for a target below the current timestamp. The search returns offset 0 and the cursor is
  moved back to index 0 instead of staying on index 3.
\<close>

theorem Seek_earlier_target_rewinds:
  "At \<lparr>list = five_samples, idx = 3\<rparr> = Inr (3, 0.125)
   \<and> Seek \<lparr>list = five_samples, idx = 3\<rparr> 2 = Inr (True, \<lparr>list = five_samples, idx = 0\<rparr>)"
  by (simp add: Seek_def Search_def Search_loop.simps index_def At_def five_samples_def word_sle_eq)


section \<open>Properties of \<^verbatim>\<open>GenSeries\<close>\<close>

subsection \<open>The label loop and the sample loop in closed form\<close>

lemma fst_label_entry: "fst (label_entry j) = label_key j"
  by (simp add: label_entry_def label_key_def)

lemma label_key_inj: "label_key i = label_key j \<longleftrightarrow> i = j"
  by (auto simp: label_key_def dest: Itoa_inj)

lemma label_key_not_base: "label_key j \<noteq> defaultLabelName"
  by (simp add: label_key_def Itoa_nonempty)

lemma update_fresh: "k \<notin> fst ` set m \<Longrightarrow> AList.update k v m = m @ [(k, v)]"
  by (induction m) auto

lemma map_set_fresh: "k \<notin> fst ` set m \<Longrightarrow> map_set k v m = m @ [(k, v)]"
  by (simp add: map_set_def update_fresh)

lemma label_loop_fresh:
  "\<forall>j'\<ge>j. label_key j' \<notin> fst ` set lbls \<Longrightarrow>
   label_loop k lbls j = lbls @ map label_entry [j..j + (k - map_len lbls) - 1]"
proof (induction k lbls j rule: label_loop.induct)
  case (1 k lbls j)
  show ?case
  proof (cases "map_len lbls < k")
    case False
    then show ?thesis by (subst label_loop.simps) simp
  next
    case True
    let ?lbls' = "map_set (defaultLabelName @ Itoa j) (defaultLabelValue @ Itoa j) lbls"
    have fresh: "label_key j \<notin> fst ` set lbls" using "1.prems" by simp
    then have new: "?lbls' = lbls @ [label_entry j]"
      by (simp add: map_set_fresh label_key_def label_entry_def)
    have len: "map_len ?lbls' = map_len lbls + 1"
      using fresh by (simp add: map_len_set label_key_def)
    have "\<forall>j'\<ge>j + 1. label_key j' \<notin> fst ` set ?lbls'"
      using "1.prems" by (auto simp: new fst_label_entry label_key_inj)
    then have "label_loop k ?lbls' (j + 1) = ?lbls' @ map label_entry [j + 1..j + 1 + (k - map_len ?lbls') - 1]"
      using "1.IH" True by simp
    moreover have "[j..j + (k - map_len lbls) - 1] = j # [j + 1..j + (k - map_len lbls) - 1]"
      using True by (intro upto_rec1) simp
    moreover have "map_len (lbls @ [label_entry j]) = map_len lbls + 1"
      using len new by simp
    ultimately show ?thesis using True
      by (subst label_loop.simps) (simp add: new)
  qed
qed

lemma gen_labels:
  "label_loop k (map_set defaultLabelName (Itoa i) []) 1 = expected_labels i k"
proof -
  have "\<forall>j'\<ge>1. label_key j' \<notin> fst ` set (map_set defaultLabelName (Itoa i) [])"
    by (simp add: map_set_def label_key_not_base)
  then show ?thesis
    using label_loop_fresh[of 1 "map_set defaultLabelName (Itoa i) []" k]
    by (simp add: expected_labels_def map_set_def map_len_def)
qed

lemma keys_expected_labels:
  "map fst (expected_labels i k) = defaultLabelName # map label_key [1..k - 1]"
  by (simp add: expected_labels_def fst_label_entry comp_def)

lemma distinct_expected_labels: "distinct (map fst (expected_labels i k))"
  unfolding keys_expected_labels
  by (auto simp: distinct_map label_key_not_base label_key_not_base[symmetric] inj_on_def label_key_inj)

lemma length_expected_labels: "int (length (expected_labels i k)) = max 1 k"
  by (simp add: expected_labels_def)

lemma map_len_expected_labels: "1 \<le> k \<Longrightarrow> map_len (expected_labels i k) = k"
  using distinct_expected_labels[of i k] length_expected_labels[of i k]
  by (simp add: map_len_def distinct_remdups_id)

lemma map_of_entries:
  "j \<in> set js \<Longrightarrow> map_of (map label_entry js) (label_key j) = Some (defaultLabelValue @ Itoa j)"
  by (induction js) (auto simp: label_entry_def label_key_def dest: Itoa_inj)

lemma expected_labels_base: "map_of (expected_labels i k) defaultLabelName = Some (Itoa i)"
  by (simp add: expected_labels_def)

lemma expected_labels_extra:
  "1 \<le> j \<Longrightarrow> j < k \<Longrightarrow> map_of (expected_labels i k) (label_key j) = Some (defaultLabelValue @ Itoa j)"
  by (simp add: expected_labels_def label_key_not_base map_of_entries)

lemma expected_labels_other:
  "x \<noteq> defaultLabelName \<Longrightarrow> map_of (expected_labels i k) x = map_of (expected_labels i' k) x"
  by (simp add: expected_labels_def)

lemma length_expected_times: "int (length (expected_times a b)) = max 0 (sint b - sint a)"
  by (simp add: expected_times_def)

subsection \<open>Series built by \<^verbatim>\<open>newSeries\<close>\<close>

lemma Labels_newSeries: "Labels (newSeries l s) = Inr l"
  by (simp add: Labels_def newSeries_def FromMap_def)

lemma Iterator_newSeries: "Iterator (newSeries l s) = Inr (newListSeriesIterator s)"
  by (simp add: Iterator_def newSeries_def)

lemma skeleton_newSeries: "skeleton (newSeries l s) = (Inr l, Inr (map T s))"
  by (simp add: skeleton_def Labels_newSeries Iterator_newSeries newListSeriesIterator_def)

subsection \<open>The sample loop\<close>

lemma sample_loop_result:
  "sample_loop R F maxt t acc c r = Inr (smp, r') \<Longrightarrow>
   map T smp = map T acc @ expected_times t maxt \<and> (\<not> t <s maxt \<longrightarrow> r' = r)"
proof (induction R F maxt t acc c r rule: sample_loop.induct)
  case (1 R F maxt t acc c r)
  show ?case
  proof (cases "t <s maxt")
    case False
    then have "sint maxt - 1 < sint t" by (simp add: word_sless_alt)
    then have "expected_times t maxt = []" by (simp add: expected_times_def)
    then show ?thesis using False "1.prems"
      by (subst (asm) sample_loop.simps) simp
  next
    case True
    obtain x r1 where F: "F r = (x, r1)" by (cases "F r")
    have "sint t \<le> sint maxt - 1" using True by (simp add: word_sless_alt)
    then have "[sint t..sint maxt - 1] = sint t # [sint t + 1..sint maxt - 1]"
      by (rule upto_rec1)
    then have et: "expected_times t maxt = t # expected_times (t + 1) maxt"
      using True by (simp add: expected_times_def sint_succ)
    from "1.prems" True F
    have run: "(case append_slice R acc c (Sample t x) of
                   Inl e \<Rightarrow> Inl e
                 | Inr (samples', c') \<Rightarrow> sample_loop R F maxt (t + 1) samples' c' r1) = Inr (smp, r')"
      by (subst (asm) sample_loop.simps) simp
    then obtain acc' c' where ap: "append_slice R acc c (Sample t x) = Inr (acc', c')"
      by (cases "append_slice R acc c (Sample t x)") auto
    then have acc': "acc' = acc @ [Sample t x]"
      by (auto simp: append_slice_def Let_def split: if_splits)
    from run ap have "sample_loop R F maxt (t + 1) acc' c' r1 = Inr (smp, r')" by simp
    from "1.IH"[OF True F[symmetric] ap refl this] show ?thesis
      using True et acc' by simp
  qed
qed

lemma sample_loop_returns:
  "int (length acc) + max 0 (sint maxt - sint t) \<le> c \<Longrightarrow>
   \<exists>smp r'. sample_loop R F maxt t acc c r = Inr (smp, r')"
proof (induction R F maxt t acc c r rule: sample_loop.induct)
  case (1 R F maxt t acc c r)
  show ?case
  proof (cases "t <s maxt")
    case False
    then show ?thesis by (subst sample_loop.simps) simp
  next
    case True
    obtain x r1 where F: "F r = (x, r1)" by (cases "F r")
    have lt: "sint t < sint maxt" using True by (simp add: word_sless_alt)
    then have room: "int (length acc) < c" using "1.prems" by simp
    then have ap: "append_slice R acc c (Sample t x) = Inr (acc @ [Sample t x], c)"
      by (simp add: append_slice_def)
    have "int (length (acc @ [Sample t x])) + max 0 (sint maxt - sint (t + 1)) \<le> c"
      using "1.prems" lt by (simp add: sint_succ[OF True])
    from "1.IH"[OF True F[symmetric] ap refl this] show ?thesis
      using True F ap by (subst sample_loop.simps) simp
  qed
qed

lemma sample_loop_sim:
  "map T acc1 = map T acc2 \<Longrightarrow>
   map_sum id (\<lambda>p. map T (fst p)) (sample_loop R F1 maxt t acc1 c r1)
   = map_sum id (\<lambda>p. map T (fst p)) (sample_loop R F2 maxt t acc2 c r2)"
proof (induction R F1 maxt t acc1 c r1 arbitrary: acc2 r2 rule: sample_loop.induct)
  case (1 R F1 maxt t acc1 c r1)
  show ?case
  proof (cases "t <s maxt")
    case False
    then show ?thesis using "1.prems"
      by (subst sample_loop.simps, subst (2) sample_loop.simps) simp
  next
    case True
    obtain x1 r1' where F1: "F1 r1 = (x1, r1')" by (cases "F1 r1")
    obtain x2 r2' where F2: "F2 r2 = (x2, r2')" by (cases "F2 r2")
    have len: "length acc1 = length acc2" using "1.prems" by (metis length_map)
    show ?thesis
    proof (cases "append_slice R acc1 c (Sample t x1)")
      case (Inl e)
      then have "append_slice R acc2 c (Sample t x2) = Inl e"
        using len by (auto simp: append_slice_def Let_def split: if_splits)
      then show ?thesis using True F1 F2 Inl
        by (subst sample_loop.simps, subst (2) sample_loop.simps) simp
    next
      case (Inr p)
      then obtain acc1' c' where ap1: "append_slice R acc1 c (Sample t x1) = Inr (acc1', c')"
        by (cases p) simp
      then have a1: "acc1' = acc1 @ [Sample t x1]"
        by (auto simp: append_slice_def Let_def split: if_splits)
      have ap2: "append_slice R acc2 c (Sample t x2) = Inr (acc2 @ [Sample t x2], c')"
        using ap1 len by (auto simp: append_slice_def Let_def split: if_splits)
      have "map T acc1' = map T (acc2 @ [Sample t x2])" using "1.prems" a1 by simp
      from "1.IH"[OF True F1[symmetric] ap1 refl this, of r2']
      show ?thesis using True F1 F2 ap1 ap2
        by (subst sample_loop.simps, subst (2) sample_loop.simps) (simp add: id_def)
    qed
  qed
qed

subsection \<open>The loop over the series\<close>

lemma series_loop_panic:
  "i < n \<Longrightarrow> \<not> cap_ok R mint maxt \<Longrightarrow>
   series_loop R F n k mint maxt i series r = Inl MakesliceCapOutOfRange"
  by (subst series_loop.simps) (auto simp: make_cap_def cap_ok_def)

lemma series_loop_result:
  "series_loop R F n k mint maxt i series r = Inr (series', r') \<Longrightarrow>
   0 \<le> i \<Longrightarrow> length series = nat n \<Longrightarrow>
   length series' = nat n
   \<and> (i < n \<longrightarrow> cap_ok R mint maxt)
   \<and> (\<not> mint <s maxt \<longrightarrow> r' = r)
   \<and> (\<forall>p<nat i. series' ! p = series ! p)
   \<and> (\<forall>p. nat i \<le> p \<and> p < nat n \<longrightarrow> fixture_ok k mint maxt series' p)"
proof (induction "nat (n - i)" arbitrary: i series r)
  case 0
  then have "\<not> i < n" by simp
  then show ?case using "0.prems"
    by (subst (asm) series_loop.simps) auto
next
  case (Suc d)
  then have lt: "i < n" by simp
  have cap: "cap_ok R mint maxt"
  proof (rule ccontr)
    assume "\<not> cap_ok R mint maxt"
    then show False using series_loop_panic[OF lt, of R mint maxt F k series r] Suc.prems(1) by simp
  qed
  then have mk: "\<not> maxt - mint + 1 <s 0" "\<not> maxElems R < sint (maxt - mint + 1)"
    by (auto simp: cap_ok_def)
  from Suc.prems(1) lt mk
  have run: "(case sample_loop R F maxt mint [] (sint (maxt - mint + 1)) r of
                   Inl e \<Rightarrow> Inl e
                 | Inr (samples, r1) \<Rightarrow>
                     (case store series i
                             (newSeries (label_loop k (map_set defaultLabelName (Itoa i) []) 1) samples) of
                        Inl e \<Rightarrow> Inl e
                      | Inr series1 \<Rightarrow> series_loop R F n k mint maxt (i + 1) series1 r1)) = Inr (series', r')"
    by (subst (asm) series_loop.simps) (simp add: Let_def make_cap_def)
  then obtain smp r1 where sl: "sample_loop R F maxt mint [] (sint (maxt - mint + 1)) r = Inr (smp, r1)"
    by (cases "sample_loop R F maxt mint [] (sint (maxt - mint + 1)) r") auto
  have times: "map T smp = expected_times mint maxt" and r1: "\<not> mint <s maxt \<longrightarrow> r1 = r"
    using sample_loop_result[OF sl] by simp_all
  let ?x = "newSeries (expected_labels i k) smp"
  let ?series1 = "series[nat i := ?x]"
  have st: "store series i ?x = Inr ?series1"
    using Suc.prems lt by (simp add: store_def)
  from run sl st have next_run: "series_loop R F n k mint maxt (i + 1) ?series1 r1 = Inr (series', r')"
    by (simp add: gen_labels)
  have d: "d = nat (n - (i + 1))" using Suc.hyps(2) by simp
  have pre: "0 \<le> i + 1" "length ?series1 = nat n" using Suc.prems by simp_all
  from Suc.hyps(1)[OF d next_run pre]
  have len: "length series' = nat n"
    and same: "\<not> mint <s maxt \<longrightarrow> r' = r1"
    and low: "\<forall>p<nat (i + 1). series' ! p = ?series1 ! p"
    and high: "\<forall>p. nat (i + 1) \<le> p \<and> p < nat n \<longrightarrow> fixture_ok k mint maxt series' p"
    by simp_all
  have at_i: "series' ! nat i = ?x"
    using low Suc.prems lt by simp
  have here: "fixture_ok k mint maxt series' (nat i)"
    unfolding fixture_ok_def using at_i times Suc.prems(2) by auto
  have "\<forall>p<nat i. series' ! p = series ! p"
    using low Suc.prems by simp
  moreover have "\<forall>p. nat i \<le> p \<and> p < nat n \<longrightarrow> fixture_ok k mint maxt series' p"
  proof (intro allI impI)
    fix p assume p: "nat i \<le> p \<and> p < nat n"
    show "fixture_ok k mint maxt series' p"
    proof (cases "p = nat i")
      case True
      then show ?thesis using here by simp
    next
      case False
      then have "nat (i + 1) \<le> p \<and> p < nat n" using p Suc.prems by auto
      then show ?thesis using high by blast
    qed
  qed
  ultimately show ?case using len same r1 cap by simp
qed

lemma series_loop_returns:
  assumes cap: "cap_ok R mint maxt" and fit: "fits mint maxt"
  shows "0 \<le> i \<Longrightarrow> i \<le> n \<Longrightarrow> length series = nat n \<Longrightarrow>
    \<exists>series' r'. series_loop R F n k mint maxt i series r = Inr (series', r')"
proof (induction "nat (n - i)" arbitrary: i series r)
  case 0
  then have "\<not> i < n" by simp
  then show ?case by (subst series_loop.simps) simp
next
  case (Suc d)
  then have lt: "i < n" by simp
  have mk: "\<not> maxt - mint + 1 <s 0" "\<not> maxElems R < sint (maxt - mint + 1)"
    using cap by (auto simp: cap_ok_def)
  have "\<exists>smp r1. sample_loop R F maxt mint [] (sint (maxt - mint + 1)) r = Inr (smp, r1)"
    using fit by (intro sample_loop_returns) (simp add: fits_def)
  then obtain smp r1 where sl: "sample_loop R F maxt mint [] (sint (maxt - mint + 1)) r = Inr (smp, r1)"
    by blast
  let ?x = "newSeries (expected_labels i k) smp"
  let ?series1 = "series[nat i := ?x]"
  have st: "store series i ?x = Inr ?series1"
    using Suc.prems lt by (simp add: store_def)
  have unfold: "series_loop R F n k mint maxt i series r = series_loop R F n k mint maxt (i + 1) ?series1 r1"
    using lt mk sl st by (subst series_loop.simps) (simp add: gen_labels Let_def make_cap_def)
  have d: "d = nat (n - (i + 1))" using Suc.hyps(2) by simp
  have pre: "0 \<le> i + 1" "i + 1 \<le> n" "length ?series1 = nat n" using Suc.prems lt by simp_all
  from Suc.hyps(1)[OF d pre, of r1] show ?case unfolding unfold .
qed

lemma series_loop_sim:
  "map skeleton series1 = map skeleton series2 \<Longrightarrow>
   map_sum id (\<lambda>p. map skeleton (fst p)) (series_loop R F1 n k mint maxt i series1 r1)
   = map_sum id (\<lambda>p. map skeleton (fst p)) (series_loop R F2 n k mint maxt i series2 r2)"
proof (induction "nat (n - i)" arbitrary: i series1 series2 r1 r2)
  case 0
  then have "\<not> i < n" by simp
  then show ?case using "0.prems"
    by (subst series_loop.simps, subst (2) series_loop.simps) simp
next
  case (Suc d)
  then have lt: "i < n" by simp
  have len: "length series1 = length series2" using Suc.prems by (metis length_map)
  show ?case
  proof (cases "cap_ok R mint maxt")
    case False
    then show ?thesis using lt by (simp add: series_loop_panic)
  next
    case True
    let ?c = "sint (maxt - mint + 1)"
    have mk1: "\<not> maxt - mint + 1 <s 0" and mk2: "\<not> maxElems R < ?c"
      using True by (auto simp: cap_ok_def)
    have sim: "map_sum id (\<lambda>p. map T (fst p)) (sample_loop R F1 maxt mint [] ?c r1)
             = map_sum id (\<lambda>p. map T (fst p)) (sample_loop R F2 maxt mint [] ?c r2)"
      by (rule sample_loop_sim) simp
    show ?thesis
    proof (cases "sample_loop R F1 maxt mint [] ?c r1")
      case (Inl e)
      then have "sample_loop R F2 maxt mint [] ?c r2 = Inl e"
        using sim by (cases "sample_loop R F2 maxt mint [] ?c r2") simp_all
      then show ?thesis using lt mk1 mk2 Inl
        by (subst series_loop.simps, subst (2) series_loop.simps) (simp add: Let_def make_cap_def)
    next
      case (Inr q1)
      then obtain smp1 r1' where s1: "sample_loop R F1 maxt mint [] ?c r1 = Inr (smp1, r1')"
        by (cases q1) simp
      then obtain smp2 r2' where s2: "sample_loop R F2 maxt mint [] ?c r2 = Inr (smp2, r2')"
        and eq: "map T smp1 = map T smp2"
        using sim by (cases "sample_loop R F2 maxt mint [] ?c r2") auto
      let ?l = "expected_labels i k"
      show ?thesis
      proof (cases "0 \<le> i \<and> i < int (length series1)")
        case False
        then have "store series1 i (newSeries ?l smp1) = Inl IndexOutOfRange"
          "store series2 i (newSeries ?l smp2) = Inl IndexOutOfRange"
          using len by (simp_all add: store_def)
        then show ?thesis using lt mk1 mk2 s1 s2
          by (subst series_loop.simps, subst (2) series_loop.simps) (simp add: Let_def gen_labels make_cap_def)
      next
        case True
        let ?n1 = "series1[nat i := newSeries ?l smp1]"
        let ?n2 = "series2[nat i := newSeries ?l smp2]"
        have st: "store series1 i (newSeries ?l smp1) = Inr ?n1"
          "store series2 i (newSeries ?l smp2) = Inr ?n2"
          using True len by (simp_all add: store_def)
        have "map skeleton ?n1 = map skeleton ?n2"
          using Suc.prems eq by (simp add: map_update skeleton_newSeries)
        moreover have "d = nat (n - (i + 1))" using Suc.hyps(2) by simp
        ultimately have
          "map_sum id (\<lambda>p. map skeleton (fst p)) (series_loop R F1 n k mint maxt (i + 1) ?n1 r1')
           = map_sum id (\<lambda>p. map skeleton (fst p)) (series_loop R F2 n k mint maxt (i + 1) ?n2 r2')"
          using Suc.hyps(1)[of "i + 1" ?n1 ?n2 r1' r2'] by simp
        then show ?thesis using lt mk1 mk2 s1 s2 st
          by (subst series_loop.simps, subst (2) series_loop.simps) (simp add: Let_def gen_labels id_def make_cap_def)
      qed
    qed
  qed
qed

subsection \<open>The outcomes of \<^verbatim>\<open>GenSeries\<close>\<close>

lemma GenSeries_empty: "n = 0 \<or> k = 0 \<Longrightarrow> GenSeries R F r n k a b = Inr ([], r)"
  by (simp add: GenSeries_def)

lemma GenSeries_len_panic:
  "n < 0 \<or> maxElems R < n \<Longrightarrow> n \<noteq> 0 \<Longrightarrow> k \<noteq> 0 \<Longrightarrow>
   GenSeries R F r n k a b = Inl MakesliceLenOutOfRange"
  by (simp add: GenSeries_def make_len_def)

lemma GenSeries_cap_panic:
  "0 < n \<Longrightarrow> n \<le> maxElems R \<Longrightarrow> k \<noteq> 0 \<Longrightarrow> \<not> cap_ok R a b \<Longrightarrow>
   GenSeries R F r n k a b = Inl MakesliceCapOutOfRange"
  by (simp add: GenSeries_def make_len_def series_loop_panic)

lemma GenSeries_returns:
  assumes "0 < n" "n \<le> maxElems R" "k \<noteq> 0" "cap_ok R a b" "fits a b"
  shows "\<exists>fs r'. GenSeries R F r n k a b = Inr (fs, r')"
proof -
  have "GenSeries R F r n k a b = series_loop R F n k a b 0 (replicate (nat n) None) r"
    using assms by (simp add: GenSeries_def make_len_def)
  moreover have "\<exists>series' r'. series_loop R F n k a b 0 (replicate (nat n) None) r = Inr (series', r')"
    using assms(1) by (intro series_loop_returns[OF assms(4,5)]) simp_all
  ultimately show ?thesis by simp
qed

lemma GenSeries_result:
  assumes g: "GenSeries R F r n k a b = Inr (fs, r')" and nz: "n \<noteq> 0" "k \<noteq> 0"
  shows "0 < n" and "n \<le> maxElems R" and "cap_ok R a b" and "length fs = nat n"
    and "\<not> a <s b \<Longrightarrow> r' = r" and "p < nat n \<Longrightarrow> fixture_ok k a b fs p"
proof -
  have ok: "\<not> (n < 0 \<or> maxElems R < n)"
  proof
    assume "n < 0 \<or> maxElems R < n"
    then show False using g nz by (simp add: GenSeries_len_panic)
  qed
  then show pos: "0 < n" and le: "n \<le> maxElems R" using nz by simp_all
  have run: "series_loop R F n k a b 0 (replicate (nat n) None) r = Inr (fs, r')"
    using g nz ok by (simp add: GenSeries_def make_len_def)
  have all: "length fs = nat n
   \<and> (0 < n \<longrightarrow> cap_ok R a b)
   \<and> (\<not> a <s b \<longrightarrow> r' = r)
   \<and> (\<forall>p<nat 0. fs ! p = replicate (nat n) None ! p)
   \<and> (\<forall>p. nat 0 \<le> p \<and> p < nat n \<longrightarrow> fixture_ok k a b fs p)"
    by (rule series_loop_result[OF run]) simp_all
  from all pos show "cap_ok R a b" by simp
  from all show "length fs = nat n" by simp
  from all show "\<not> a <s b \<Longrightarrow> r' = r" by simp
  from all show "p < nat n \<Longrightarrow> fixture_ok k a b fs p" by simp
qed

lemma fixture_ok_skeleton:
  "fixture_ok k a b fs p \<Longrightarrow> skeleton (fs ! p) = (Inr (expected_labels (int p) k), Inr (expected_times a b))"
  unfolding fixture_ok_def by (elim exE conjE) (simp add: skeleton_newSeries)

lemma fixture_ok_Labels:
  "fixture_ok k a b fs p \<Longrightarrow> Labels (fs ! p) = Inr (expected_labels (int p) k)"
  unfolding fixture_ok_def by (elim exE conjE) (simp add: Labels_newSeries)

lemma fixture_ok_Iterator:
  "fixture_ok k a b fs p \<Longrightarrow>
   \<exists>it. Iterator (fs ! p) = Inr it \<and> idx it = - 1 \<and> map T (list it) = expected_times a b"
  unfolding fixture_ok_def
  by (elim exE conjE) (simp add: Iterator_newSeries newListSeriesIterator_def)

lemma GenSeries_fixtures:
  assumes g: "GenSeries R F r n k a b = Inr (fs, r')" and nz: "n \<noteq> 0" "1 \<le> k"
  shows "int (length fs) = n \<and>
           (\<forall>f\<in>set fs. \<exists>lbls it. Labels f = Inr lbls \<and> Iterator f = Inr it
               \<and> distinct (map fst lbls) \<and> int (length lbls) = k \<and> map_len lbls = k
               \<and> idx it = - 1
               \<and> int (length (list it)) = max 0 (sint b - sint a)
               \<and> map T (list it) = map word_of_int [sint a..sint b - 1])"
proof -
  have kz: "k \<noteq> 0" using nz(2) by simp
  note res = GenSeries_result[OF g nz(1) kz]
  have each: "\<exists>lbls it. Labels f = Inr lbls \<and> Iterator f = Inr it
               \<and> distinct (map fst lbls) \<and> int (length lbls) = k \<and> map_len lbls = k
               \<and> idx it = - 1
               \<and> int (length (list it)) = max 0 (sint b - sint a)
               \<and> map T (list it) = map word_of_int [sint a..sint b - 1]" if "f \<in> set fs" for f
  proof -
    from that obtain p where p: "p < length fs" "f = fs ! p" by (auto simp: in_set_conv_nth)
    then have ok: "fixture_ok k a b fs p" using res(4) by (intro res(6)) simp
    obtain it where it: "Iterator (fs ! p) = Inr it" "idx it = - 1" "map T (list it) = expected_times a b"
      using fixture_ok_Iterator[OF ok] by (elim exE conjE)
    have "length (list it) = length (expected_times a b)"
      using it(3) by (metis length_map)
    then have len: "int (length (list it)) = max 0 (sint b - sint a)"
      using length_expected_times[of a b] by simp
    show ?thesis
      using fixture_ok_Labels[OF ok] it len nz(2) p(2)
      by (simp add: distinct_expected_labels length_expected_labels map_len_expected_labels
            expected_times_def)
  qed
  show ?thesis using res(1,4) each by (intro conjI ballI) simp_all
qed

text \<open>The wrapped capacity differs from the true one by a multiple of \<open>2 ^ 64\<close>; when it
  is not negative, the samples outgrow it for one range only, the whole of \<^verbatim>\<open>int64\<close>.\<close>

lemma sint_capacity:
  "\<exists>q. sint (b - a + 1 :: int64) = sint b - sint a + 1 - 2 ^ 64 * q"
proof -
  define x where "x = sint b - sint a + 1 + 2 ^ 63"
  define q where "q = x div 2 ^ 64"
  define m where "m = x mod 2 ^ 64"
  have decomp: "x = 2 ^ 64 * q + m"
    unfolding q_def m_def by simp
  have "b - a + 1 = (word_of_int (sint b - sint a + 1) :: int64)"
    by simp
  then have "sint (b - a + 1) = signed_take_bit 63 (sint b - sint a + 1)"
    by (simp only: sint_sbintrunc') simp
  also have "\<dots> = m - 2 ^ 63"
    unfolding m_def x_def by (simp add: signed_take_bit_eq_take_bit_shift take_bit_eq_mod)
  also have "\<dots> = sint b - sint a + 1 - 2 ^ 64 * q"
    using decomp unfolding x_def by linarith
  finally show ?thesis by blast
qed

lemma fits_reversed: "\<not> b - a + 1 <s 0 \<Longrightarrow> \<not> a <s b \<Longrightarrow> fits a b"
  by (simp add: fits_def word_sless_alt)

lemma fits_unless_full_range:
  assumes "\<not> b - a + 1 <s 0" and "\<not> (a = min_int64 \<and> b = max_int64)"
  shows "fits a b"
proof -
  obtain q where q: "sint (b - a + 1) = sint b - sint a + 1 - 2 ^ 64 * q"
    using sint_capacity[of b a] by blast
  have s: "0 \<le> sint (b - a + 1)" "sint (b - a + 1) < 2 ^ 63"
    using assms(1) sint_lt[of "b - a + 1"] by (simp_all add: word_sless_alt)
  have ba: "- (2 ^ 63) \<le> sint a" "sint a < 2 ^ 63" "- (2 ^ 63) \<le> sint b" "sint b < 2 ^ 63"
    using sint_ge[of a] sint_lt[of a] sint_ge[of b] sint_lt[of b] by simp_all
  show ?thesis
  proof (cases "sint b - sint a \<le> 0")
    case True
    then show ?thesis using s by (simp add: fits_def)
  next
    case False
    have "q \<le> 1" using q s ba by simp
    moreover have "0 \<le> q" using q s ba False by simp
    ultimately consider "q = 0" | "q = 1" by linarith
    then show ?thesis
    proof cases
      case 1
      then show ?thesis using q s False by (simp add: fits_def)
    next
      case 2
      then have "sint b = 2 ^ 63 - 1" "sint a = - (2 ^ 63)" using q s ba by simp_all
      then have "b = max_int64" "a = min_int64"
        by (auto simp: max_int64_def min_int64_def intro: signed_word_eqI)
      then show ?thesis using assms(2) by simp
    qed
  qed
qed

lemmas GenSeries_eval =
  GenSeries_def linux_amd64_def append_slice_def make_len_def make_cap_def store_def series_loop.simps sample_loop.simps
  label_loop.simps map_set_def map_len_def Itoa_def udigits.simps digit_def
  defaultLabelName_def defaultLabelValue_def halves_def word_sless_alt Let_def
  eval_nat_numeral

text \<open>Sizes that \<^verbatim>\<open>make\<close> refuses although they are not negative: a capacity of
  \<open>2 ^ 62 + 1\<close>, a wrapped capacity of \<open>2 ^ 63 - 1\<close>, a length of \<open>2 ^ 44 + 1\<close>.\<close>

lemma GenSeries_oversized:
  "GenSeries linux_amd64 halves 0 1 1 0 4611686018427387904 = Inl MakesliceCapOutOfRange"
  "GenSeries linux_amd64 halves 0 1 1 4611686018427387906 (- 4611686018427387904)
     = Inl MakesliceCapOutOfRange"
  "GenSeries linux_amd64 halves 0 17592186044417 1 0 1 = Inl MakesliceLenOutOfRange"
  by (simp_all add: GenSeries_eval)

subsection \<open>Claims about \<^verbatim>\<open>GenSeries\<close>\<close>

text \<open>
  Claim C3, as stated, fails: \<^verbatim>\<open>GenSeries(1, 1, 5, 3)\<close> does not return one fixture with
  \<open>max(0, 3 - 5) = 0\<close> samples. The capacity \<^verbatim>\<open>maxt-mint+1\<close> is \<open>-1\<close> and
  \<^verbatim>\<open>make\<close> panics.
\<close>

theorem GenSeries_cardinality_counterexample:
  "(0::int) \<le> 1 \<and> GenSeries linux_amd64 halves 0 1 1 5 3 = Inl MakesliceCapOutOfRange"
  by (simp add: GenSeries_eval)

text \<open>
  Claim C3, amended. For \<open>n \<ge> 0\<close>, \<open>k \<ge> 0\<close> and times \<open>a\<close>, \<open>b\<close>:
  \<^item> if \<open>n = 0\<close> or \<open>k = 0\<close> the result is empty and the random source untouched;
  \<^item> otherwise, whenever \<^verbatim>\<open>GenSeries\<close> returns, it returns exactly \<open>n\<close> fixtures, each
    with exactly \<open>k\<close> distinct label keys and a fresh iterator over exactly
    \<open>max(0, b - a)\<close> samples whose timestamps are \<open>a, a+1, \<dots>, b-1\<close> in order;
  \<^item> it does return when \<^verbatim>\<open>make\<close> accepts both sizes, that is \<open>n\<close> is at most the
    largest slice size of the runtime and the \<^verbatim>\<open>int64\<close> capacity \<^verbatim>\<open>b-a+1\<close>, with
    wrap-around, lies between 0 and that size, the range not being the whole of
    \<^verbatim>\<open>int64\<close> (\<open>a\<close> the smallest and \<open>b\<close> the largest value, where the capacity wraps
    to 0);
  \<^item> it panics in \<^verbatim>\<open>make\<close> when \<open>n\<close> is more than that size, and when the capacity is
    negative or more than that size.
\<close>

theorem GenSeries_cardinality:
  assumes "0 \<le> n" "0 \<le> k"
  shows "(n = 0 \<or> k = 0 \<longrightarrow> GenSeries R F r n k a b = Inr ([], r))
   \<and> (n \<noteq> 0 \<and> k \<noteq> 0 \<longrightarrow>
        (\<forall>fs r'. GenSeries R F r n k a b = Inr (fs, r') \<longrightarrow>
           int (length fs) = n \<and>
           (\<forall>f\<in>set fs. \<exists>lbls it. Labels f = Inr lbls \<and> Iterator f = Inr it
               \<and> distinct (map fst lbls) \<and> int (length lbls) = k \<and> map_len lbls = k
               \<and> idx it = - 1
               \<and> int (length (list it)) = max 0 (sint b - sint a)
               \<and> map T (list it) = map word_of_int [sint a..sint b - 1])))
   \<and> (n \<noteq> 0 \<and> k \<noteq> 0 \<and> n \<le> maxElems R
        \<and> \<not> b - a + 1 <s 0 \<and> sint (b - a + 1) \<le> maxElems R
        \<and> \<not> (a = min_int64 \<and> b = max_int64) \<longrightarrow>
        (\<exists>fs r'. GenSeries R F r n k a b = Inr (fs, r')))
   \<and> (n \<noteq> 0 \<and> k \<noteq> 0 \<and> maxElems R < n \<longrightarrow>
        GenSeries R F r n k a b = Inl MakesliceLenOutOfRange)
   \<and> (n \<noteq> 0 \<and> k \<noteq> 0 \<and> n \<le> maxElems R
        \<and> (b - a + 1 <s 0 \<or> maxElems R < sint (b - a + 1)) \<longrightarrow>
        GenSeries R F r n k a b = Inl MakesliceCapOutOfRange)"
proof (intro conjI impI allI)
  assume "n = 0 \<or> k = 0"
  then show "GenSeries R F r n k a b = Inr ([], r)" by (rule GenSeries_empty)
next
  fix fs r'
  assume "n \<noteq> 0 \<and> k \<noteq> 0" and g: "GenSeries R F r n k a b = Inr (fs, r')"
  then have "n \<noteq> 0" "1 \<le> k" using assms by simp_all
  from GenSeries_fixtures[OF g this]
  show "int (length fs) = n" and
    "\<forall>f\<in>set fs. \<exists>lbls it. Labels f = Inr lbls \<and> Iterator f = Inr it
               \<and> distinct (map fst lbls) \<and> int (length lbls) = k \<and> map_len lbls = k
               \<and> idx it = - 1
               \<and> int (length (list it)) = max 0 (sint b - sint a)
               \<and> map T (list it) = map word_of_int [sint a..sint b - 1]"
    by simp_all
next
  assume h: "n \<noteq> 0 \<and> k \<noteq> 0 \<and> n \<le> maxElems R
        \<and> \<not> b - a + 1 <s 0 \<and> sint (b - a + 1) \<le> maxElems R
        \<and> \<not> (a = min_int64 \<and> b = max_int64)"
  then have "fits a b" by (intro fits_unless_full_range) simp_all
  moreover have "cap_ok R a b" using h by (simp add: cap_ok_def)
  ultimately show "\<exists>fs r'. GenSeries R F r n k a b = Inr (fs, r')"
    using h assms by (intro GenSeries_returns) simp_all
next
  assume "n \<noteq> 0 \<and> k \<noteq> 0 \<and> maxElems R < n"
  then show "GenSeries R F r n k a b = Inl MakesliceLenOutOfRange"
    by (intro GenSeries_len_panic) simp_all
next
  assume h: "n \<noteq> 0 \<and> k \<noteq> 0 \<and> n \<le> maxElems R
        \<and> (b - a + 1 <s 0 \<or> maxElems R < sint (b - a + 1))"
  then have "\<not> cap_ok R a b" by (auto simp: cap_ok_def)
  then show "GenSeries R F r n k a b = Inl MakesliceCapOutOfRange"
    using h assms by (intro GenSeries_cap_panic) simp_all
qed

theorem GenSeries_cardinality_witness:
  "(0::int) \<le> 3 \<and> (0::int) \<le> 2 \<and> (3::int) \<le> maxElems linux_amd64
   \<and> \<not> (5::int64) - 0 + 1 <s 0 \<and> sint ((5::int64) - 0 + 1) \<le> maxElems linux_amd64
   \<and> \<not> ((0::int64) = min_int64 \<and> (5::int64) = max_int64)
   \<and> (\<exists>fs r'. GenSeries linux_amd64 halves 0 3 2 0 5 = Inr (fs, r') \<and> int (length fs) = 3 \<and>
           (\<forall>f\<in>set fs. \<exists>lbls it. Labels f = Inr lbls \<and> Iterator f = Inr it
               \<and> distinct (map fst lbls) \<and> int (length lbls) = 2 \<and> map_len lbls = 2
               \<and> idx it = - 1
               \<and> int (length (list it)) = 5
               \<and> map T (list it) = [0, 1, 2, 3, 4]))"
proof -
  have h: "(0::int) \<le> 3" "(0::int) \<le> 2" by simp_all
  have c: "(3::int) \<le> maxElems linux_amd64" "\<not> (5::int64) - 0 + 1 <s 0"
    "sint ((5::int64) - 0 + 1) \<le> maxElems linux_amd64"
    "\<not> ((0::int64) = min_int64 \<and> (5::int64) = max_int64)"
    by (simp_all add: word_sless_alt linux_amd64_def min_int64_def)
  have m: "max 0 (sint (5::int64) - sint (0::int64)) = 5" by simp
  have ts: "map word_of_int [sint (0::int64)..sint (5::int64) - 1] = [0, 1, 2, 3, 4::int64]"
    by (simp add: upto.simps)
  note all = GenSeries_cardinality[OF h, where R = linux_amd64 and F = halves and r = 0 and a = 0 and b = 5]
  from all c obtain fs r' where g: "GenSeries linux_amd64 halves 0 3 2 0 5 = Inr (fs, r')"
    by auto
  from all g have "int (length fs) = 3 \<and>
           (\<forall>f\<in>set fs. \<exists>lbls it. Labels f = Inr lbls \<and> Iterator f = Inr it
               \<and> distinct (map fst lbls) \<and> int (length lbls) = 2 \<and> map_len lbls = 2
               \<and> idx it = - 1
               \<and> int (length (list it)) = max 0 (sint (5::int64) - sint (0::int64))
               \<and> map T (list it) = map word_of_int [sint (0::int64)..sint (5::int64) - 1])"
    by simp
  then have "\<exists>fs r'. GenSeries linux_amd64 halves 0 3 2 0 5 = Inr (fs, r') \<and> int (length fs) = 3 \<and>
           (\<forall>f\<in>set fs. \<exists>lbls it. Labels f = Inr lbls \<and> Iterator f = Inr it
               \<and> distinct (map fst lbls) \<and> int (length lbls) = 2 \<and> map_len lbls = 2
               \<and> idx it = - 1
               \<and> int (length (list it)) = 5
               \<and> map T (list it) = [0, 1, 2, 3, 4])"
    unfolding m ts using g by (intro exI[of _ fs] exI[of _ r'] conjI) simp_all
  with h c show ?thesis by (intro conjI)
qed

text \<open>
  Claim C4, as stated, fails: with \<open>totalSeries = 2\<close>, \<open>labelCount = 3\<close>, \<open>minTime = 10\<close>
  and \<open>maxTime = 0\<close> the capacity \<^verbatim>\<open>maxt-mint+1\<close> is \<open>-9\<close> and \<^verbatim>\<open>GenSeries\<close> panics.
\<close>

theorem GenSeries_reversed_range_counterexample:
  "(1::int) \<le> 2 \<and> (1::int) \<le> 3 \<and> (0::int64) <s 10
   \<and> GenSeries linux_amd64 halves 0 2 3 10 0 = Inl MakesliceCapOutOfRange"
  by (simp add: GenSeries_eval)

text \<open>
  Claim C4, amended. For \<open>totalSeries \<ge> 1\<close>, \<open>labelCount \<ge> 1\<close> and \<open>maxTime < minTime\<close>:
  if \<^verbatim>\<open>make\<close> accepts both sizes, that is \<open>totalSeries\<close> is at most the largest slice size
  of the runtime and the \<^verbatim>\<open>int64\<close> capacity \<^verbatim>\<open>maxt-mint+1\<close>, with wrap-around, lies
  between 0 and that size (as for \<open>maxTime = minTime - 1\<close>), \<^verbatim>\<open>GenSeries\<close> returns
  normally \<open>totalSeries\<close> fixtures with no samples and draws nothing from the random
  source; it panics in \<^verbatim>\<open>make\<close> when \<open>totalSeries\<close> is more than that size, and when the
  capacity is negative or more than that size.
\<close>

theorem GenSeries_reversed_range:
  assumes "1 \<le> n" "1 \<le> k" "maxt <s mint"
  shows "(n \<le> maxElems R \<and> \<not> maxt - mint + 1 <s 0 \<and> sint (maxt - mint + 1) \<le> maxElems R \<longrightarrow>
           (\<exists>fs. GenSeries R F r n k mint maxt = Inr (fs, r) \<and> int (length fs) = n
                 \<and> (\<forall>f\<in>set fs. \<exists>it. Iterator f = Inr it \<and> list it = [])))
       \<and> (maxElems R < n \<longrightarrow> GenSeries R F r n k mint maxt = Inl MakesliceLenOutOfRange)
       \<and> (n \<le> maxElems R \<and> (maxt - mint + 1 <s 0 \<or> maxElems R < sint (maxt - mint + 1)) \<longrightarrow>
            GenSeries R F r n k mint maxt = Inl MakesliceCapOutOfRange)"
proof (intro conjI impI)
  assume "maxElems R < n"
  then show "GenSeries R F r n k mint maxt = Inl MakesliceLenOutOfRange"
    using assms by (intro GenSeries_len_panic) simp_all
next
  assume h: "n \<le> maxElems R \<and> (maxt - mint + 1 <s 0 \<or> maxElems R < sint (maxt - mint + 1))"
  then have "\<not> cap_ok R mint maxt" by (auto simp: cap_ok_def)
  then show "GenSeries R F r n k mint maxt = Inl MakesliceCapOutOfRange"
    using h assms by (intro GenSeries_cap_panic) simp_all
next
  assume h: "n \<le> maxElems R \<and> \<not> maxt - mint + 1 <s 0 \<and> sint (maxt - mint + 1) \<le> maxElems R"
  have nz: "n \<noteq> 0" "k \<noteq> 0" and pos: "0 < n" using assms by simp_all
  have rev: "\<not> mint <s maxt" using assms(3) by (simp add: word_sless_alt)
  have cap: "cap_ok R mint maxt" using h by (simp add: cap_ok_def)
  have fit: "fits mint maxt" using h rev by (intro fits_reversed) simp_all
  obtain fs r' where g: "GenSeries R F r n k mint maxt = Inr (fs, r')"
    using GenSeries_returns[OF pos _ nz(2) cap fit, of F r] h by blast
  note res = GenSeries_result[OF g nz]
  have r: "r' = r" using res(5) rev by simp
  have no_times: "expected_times mint maxt = []"
    using assms(3) by (simp add: expected_times_def word_sless_alt)
  have each: "\<exists>it. Iterator f = Inr it \<and> list it = []" if "f \<in> set fs" for f
  proof -
    from that obtain p where p: "p < length fs" "f = fs ! p" by (auto simp: in_set_conv_nth)
    then have ok: "fixture_ok k mint maxt fs p" using res(4) by (intro res(6)) simp
    obtain it where it: "Iterator (fs ! p) = Inr it" "map T (list it) = expected_times mint maxt"
      using fixture_ok_Iterator[OF ok] by (elim exE conjE)
    then show ?thesis using no_times p(2) by simp
  qed
  show "\<exists>fs. GenSeries R F r n k mint maxt = Inr (fs, r) \<and> int (length fs) = n
                 \<and> (\<forall>f\<in>set fs. \<exists>it. Iterator f = Inr it \<and> list it = [])"
    using g r res(4) pos each by (intro exI[of _ fs] conjI ballI) simp_all
qed

theorem GenSeries_reversed_range_witness:
  "(1::int) \<le> 2 \<and> (1::int) \<le> 1 \<and> (4::int64) <s 5
   \<and> (2::int) \<le> maxElems linux_amd64
   \<and> \<not> (4::int64) - 5 + 1 <s 0 \<and> sint ((4::int64) - 5 + 1) \<le> maxElems linux_amd64
   \<and> (\<exists>fs. GenSeries linux_amd64 halves 0 2 1 5 4 = Inr (fs, 0) \<and> int (length fs) = 2
             \<and> (\<forall>f\<in>set fs. \<exists>it. Iterator f = Inr it \<and> list it = []))"
proof -
  have h: "(1::int) \<le> 2" "(1::int) \<le> 1" "(4::int64) <s 5" by (simp_all add: word_sless_alt)
  have c: "(2::int) \<le> maxElems linux_amd64" "\<not> (4::int64) - 5 + 1 <s 0"
    "sint ((4::int64) - 5 + 1) \<le> maxElems linux_amd64"
    by (simp_all add: word_sless_alt linux_amd64_def)
  from GenSeries_reversed_range[OF h, where R = linux_amd64 and F = halves and r = 0] c
  have "\<exists>fs. GenSeries linux_amd64 halves 0 2 1 5 4 = Inr (fs, 0) \<and> int (length fs) = 2
             \<and> (\<forall>f\<in>set fs. \<exists>it. Iterator f = Inr it \<and> list it = [])"
    by simp
  with h c show ?thesis by (intro conjI)
qed

text \<open>
  Claim C8. For fixed arguments, two runs of \<^verbatim>\<open>GenSeries\<close> on any two random sources, in
  any two states (even with sample values of different types), end the same way: both
  panic with the same panic, or both return fixtures with the same labels and the same
  timestamp sequences.
\<close>

theorem GenSeries_deterministic:
  fixes F1 :: "'r1 \<Rightarrow> 'v1 \<times> 'r1" and F2 :: "'r2 \<Rightarrow> 'v2 \<times> 'r2"
  shows "map_sum id (map skeleton \<circ> fst) (GenSeries R F1 r1 n k a b)
   = map_sum id (map skeleton \<circ> fst) (GenSeries R F2 r2 n k a b)"
proof (cases "n = 0 \<or> k = 0")
  case True
  then show ?thesis by (simp add: GenSeries_empty)
next
  case False
  show ?thesis
  proof (cases "n < 0 \<or> maxElems R < n")
    case True
    then show ?thesis using False by (simp add: GenSeries_len_panic)
  next
    case ok: False
    have g1: "GenSeries R F1 r1 n k a b = series_loop R F1 n k a b 0 (replicate (nat n) None) r1"
      using False ok by (simp add: GenSeries_def make_len_def)
    have g2: "GenSeries R F2 r2 n k a b = series_loop R F2 n k a b 0 (replicate (nat n) None) r2"
      using False ok by (simp add: GenSeries_def make_len_def)
    have "map skeleton (replicate (nat n) (None :: 'v1 Series)) = map skeleton (replicate (nat n) (None :: 'v2 Series))"
      by (simp add: skeleton_def Labels_def Iterator_def)
    from series_loop_sim[OF this, of R F1 n k a b 0 r1 F2 r2] show ?thesis
      unfolding g1 g2 by (simp add: comp_def)
  qed
qed

theorem GenSeries_deterministic_witness:
  "map_sum id (map skeleton \<circ> fst) (GenSeries linux_amd64 halves 0 2 2 0 2)
   = map_sum id (map skeleton \<circ> fst) (GenSeries linux_amd64 halves 7 2 2 0 2)
   \<and> map_sum id (map skeleton \<circ> fst) (GenSeries linux_amd64 halves 0 2 2 0 2)
     = Inr [(Inr [(''labelName'', ''0''), (''labelName1'', ''labelValue1'')], Inr [0, 1]),
            (Inr [(''labelName'', ''1''), (''labelName1'', ''labelValue1'')], Inr [0, 1])]"
proof -
  have "map_sum id (map skeleton \<circ> fst) (GenSeries linux_amd64 halves 0 2 2 0 2)
     = Inr [(Inr [(''labelName'', ''0''), (''labelName1'', ''labelValue1'')], Inr [0, 1]),
            (Inr [(''labelName'', ''1''), (''labelName1'', ''labelValue1'')], Inr [0, 1])]"
    by (simp add: GenSeries_eval skeleton_def Labels_def Iterator_def newSeries_def FromMap_def
          newListSeriesIterator_def)
  with GenSeries_deterministic[of linux_amd64 halves 0 2 2 0 2 halves 7] show ?thesis
    by (intro conjI)
qed

text \<open>
  Claim C9, as stated, fails: for \<open>labelCount = 3\<close> the two additional labels of fixture 0
  carry the values \<^verbatim>\<open>labelValue1\<close> and \<^verbatim>\<open>labelValue2\<close>, not one repeated value.
\<close>

theorem GenSeries_extra_labels_counterexample:
  "map_sum id (map Labels \<circ> fst) (GenSeries linux_amd64 halves 0 1 3 0 1)
     = Inr [Inr [(''labelName'', ''0''), (''labelName1'', ''labelValue1''),
                 (''labelName2'', ''labelValue2'')]]
   \<and> ''labelValue1'' \<noteq> ''labelValue2''"
  by (simp add: GenSeries_eval Labels_def newSeries_def FromMap_def)

text \<open>
  Claim C9, amended. For every series index \<open>i\<close> and every \<open>labelCount \<ge> 2\<close>, the keys of
  fixture \<open>i\<close> are the base name and the base name followed by the position number \<open>j\<close>, for
  \<open>1 \<le> j < labelCount\<close>; the label at position \<open>j\<close> carries the base value followed by
  the same number \<open>j\<close>. The value depends on the position and on nothing else.
\<close>

theorem GenSeries_extra_labels:
  assumes "GenSeries R F r n k a b = Inr (fs, r')" "2 \<le> k" "0 \<le> i" "i < n"
  shows "\<exists>lbls. Labels (fs ! nat i) = Inr lbls
     \<and> fst ` set lbls = {defaultLabelName} \<union> {defaultLabelName @ Itoa j | j. 1 \<le> j \<and> j < k}
     \<and> (\<forall>j. 1 \<le> j \<and> j < k \<longrightarrow> map_of lbls (defaultLabelName @ Itoa j) = Some (defaultLabelValue @ Itoa j))"
proof -
  have nz: "n \<noteq> 0" "k \<noteq> 0" using assms by simp_all
  have "fixture_ok k a b fs (nat i)"
    using assms(3,4) by (intro GenSeries_result(6)[OF assms(1) nz]) simp
  then have l: "Labels (fs ! nat i) = Inr (expected_labels i k)"
    using fixture_ok_Labels[of k a b fs "nat i"] assms(3) by simp
  have "set (map fst (expected_labels i k)) = {defaultLabelName} \<union> {defaultLabelName @ Itoa j | j. 1 \<le> j \<and> j < k}"
    unfolding keys_expected_labels by (auto simp: label_key_def)
  then have keys: "fst ` set (expected_labels i k) = {defaultLabelName} \<union> {defaultLabelName @ Itoa j | j. 1 \<le> j \<and> j < k}"
    by simp
  have vals: "\<forall>j. 1 \<le> j \<and> j < k \<longrightarrow> map_of (expected_labels i k) (defaultLabelName @ Itoa j) = Some (defaultLabelValue @ Itoa j)"
    using expected_labels_extra[of _ k i] by (simp add: label_key_def)
  show ?thesis using l keys vals by (intro exI[of _ "expected_labels i k"] conjI)
qed

theorem GenSeries_extra_labels_witness:
  "GenSeries linux_amd64 halves 0 1 3 0 1 = Inr ([newSeries three_labels [Sample 0 (1 / 2)]], 1)
   \<and> (2::int) \<le> 3 \<and> (0::int) \<le> 0 \<and> (0::int) < 1
   \<and> (\<exists>lbls. Labels ([newSeries three_labels [Sample 0 (1 / 2 :: real)]] ! nat 0) = Inr lbls
     \<and> fst ` set lbls = {defaultLabelName} \<union> {defaultLabelName @ Itoa j | j. 1 \<le> j \<and> j < 3}
     \<and> (\<forall>j. 1 \<le> j \<and> j < 3 \<longrightarrow> map_of lbls (defaultLabelName @ Itoa j) = Some (defaultLabelValue @ Itoa j)))"
proof -
  have g: "GenSeries linux_amd64 halves 0 1 3 0 1 = Inr ([newSeries three_labels [Sample 0 (1 / 2)]], 1)"
    by (simp add: GenSeries_eval three_labels_def)
  have h: "(2::int) \<le> 3" "(0::int) \<le> 0" "(0::int) < 1" by simp_all
  from g h GenSeries_extra_labels[OF g h] show ?thesis
    by (intro conjI)
qed

text \<open>
  Claim C10. For \<open>totalSeries \<ge> 1\<close> and \<open>labelCount \<ge> 1\<close>, fixture \<open>i\<close> carries the base
  label \<^verbatim>\<open>labelName\<close> with the decimal string of \<open>i\<close>; the label sets of two different
  fixtures differ; and every label other than the base label is the same in both.
\<close>

theorem GenSeries_labels_distinct:
  assumes "GenSeries R F r n k a b = Inr (fs, r')" "1 \<le> n" "1 \<le> k" "0 \<le> i" "i < n" "0 \<le> j" "j < n"
  shows "\<exists>li lj. Labels (fs ! nat i) = Inr li \<and> Labels (fs ! nat j) = Inr lj
      \<and> map_of li defaultLabelName = Some (Itoa i)
      \<and> (i \<noteq> j \<longrightarrow> map_of li \<noteq> map_of lj)
      \<and> (\<forall>x. x \<noteq> defaultLabelName \<longrightarrow> map_of li x = map_of lj x)"
proof -
  have nz: "n \<noteq> 0" "k \<noteq> 0" using assms by simp_all
  have "fixture_ok k a b fs (nat i)"
    using assms(4,5) by (intro GenSeries_result(6)[OF assms(1) nz]) simp
  then have li: "Labels (fs ! nat i) = Inr (expected_labels i k)"
    using fixture_ok_Labels[of k a b fs "nat i"] assms(4) by simp
  have "fixture_ok k a b fs (nat j)"
    using assms(6,7) by (intro GenSeries_result(6)[OF assms(1) nz]) simp
  then have lj: "Labels (fs ! nat j) = Inr (expected_labels j k)"
    using fixture_ok_Labels[of k a b fs "nat j"] assms(6) by simp
  have diff: "map_of (expected_labels i k) \<noteq> map_of (expected_labels j k)" if "i \<noteq> j"
  proof
    assume "map_of (expected_labels i k) = map_of (expected_labels j k)"
    then have "map_of (expected_labels i k) defaultLabelName = map_of (expected_labels j k) defaultLabelName"
      by simp
    then have "Itoa i = Itoa j" by (simp add: expected_labels_base)
    then show False using that Itoa_inj by blast
  qed
  show ?thesis
    using li lj diff expected_labels_base[of i k] expected_labels_other[of _ i k j]
    by (intro exI[of _ "expected_labels i k"] exI[of _ "expected_labels j k"] conjI impI allI)
qed

theorem GenSeries_labels_distinct_witness:
  "GenSeries linux_amd64 halves 0 2 1 0 1
     = Inr ([newSeries [(''labelName'', ''0'')] [Sample 0 (1 / 2)],
             newSeries [(''labelName'', ''1'')] [Sample 0 (1 / 4)]], 2)
   \<and> (1::int) \<le> 2 \<and> (1::int) \<le> 1 \<and> (0::int) \<le> 0 \<and> (0::int) < 2 \<and> (0::int) \<le> 1 \<and> (1::int) < 2
   \<and> (0::int) \<noteq> 1
   \<and> (\<exists>li lj. Labels ([newSeries [(''labelName'', ''0'')] [Sample 0 (1 / 2 :: real)],
             newSeries [(''labelName'', ''1'')] [Sample 0 (1 / 4)]] ! nat 0) = Inr li
         \<and> Labels ([newSeries [(''labelName'', ''0'')] [Sample 0 (1 / 2 :: real)],
             newSeries [(''labelName'', ''1'')] [Sample 0 (1 / 4)]] ! nat 1) = Inr lj
      \<and> map_of li defaultLabelName = Some (Itoa 0)
      \<and> (0 \<noteq> (1::int) \<longrightarrow> map_of li \<noteq> map_of lj)
      \<and> (\<forall>x. x \<noteq> defaultLabelName \<longrightarrow> map_of li x = map_of lj x))"
proof -
  have g: "GenSeries linux_amd64 halves 0 2 1 0 1
     = Inr ([newSeries [(''labelName'', ''0'')] [Sample 0 (1 / 2)],
             newSeries [(''labelName'', ''1'')] [Sample 0 (1 / 4)]], 2)"
    by (simp add: GenSeries_eval)
  have h: "(1::int) \<le> 2" "(1::int) \<le> 1" "(0::int) \<le> 0" "(0::int) < 2" "(0::int) \<le> 1" "(1::int) < 2"
    by simp_all
  have d: "(0::int) \<noteq> 1" by simp
  from g h d GenSeries_labels_distinct[OF g h] show ?thesis
    by (intro conjI)
qed


section \<open>Properties of \<^verbatim>\<open>createHead\<close>\<close>

lemma full_appends_append [simp]: "full_appends (xs @ ys) = full_appends xs @ full_appends ys"
  by (simp add: full_appends_def)

lemma fast_appends_append [simp]: "fast_appends (xs @ ys) = fast_appends xs @ fast_appends ys"
  by (simp add: fast_appends_def)










section \<open>Properties of \<^verbatim>\<open>CreateBlock\<close>\<close>

lemma min_int64_least: "min_int64 \<le>s t"
  using sint_ge[of t] by (simp add: word_sle_eq min_int64_def)

lemma max_int64_greatest: "t \<le>s max_int64"
  using sint_lt[of t] by (simp add: word_sle_eq max_int64_def)

lemma fold_smax_upper:
  "\<forall>t\<in>set ts. t \<le>s M \<Longrightarrow> m \<le>s M \<Longrightarrow> M \<in> set ts \<or> m = M \<Longrightarrow> fold smax ts m = M"
proof (induction ts arbitrary: m)
  case Nil
  then show ?case by simp
next
  case (Cons t ts)
  have le: "smax t m \<le>s M" using Cons.prems(1,2) by (simp add: smax_def)
  have "M \<in> set ts \<or> smax t m = M"
  proof (cases "M \<in> set ts")
    case True
    then show ?thesis by simp
  next
    case False
    then have "t = M \<or> m = M" using Cons.prems(3) by auto
    then have "sint (smax t m) = sint M"
      using Cons.prems(1,2) by (auto simp: smax_def word_sle_eq)
    then show ?thesis by (simp add: signed_word_eqI)
  qed
  then show ?case using Cons.IH[of "smax t m"] Cons.prems(1) le by simp
qed

lemma fold_smin_lower: "fold smin ts m \<le>s m \<and> (\<forall>t\<in>set ts. fold smin ts m \<le>s t)"
proof (induction ts arbitrary: m)
  case Nil
  then show ?case by simp
next
  case (Cons t ts)
  have a: "smin t m \<le>s m" "smin t m \<le>s t" by (auto simp: smin_def word_sle_eq)
  from Cons.IH[of "smin t m"] a show ?case
    by (auto simp: word_sle_eq)
qed

lemma append_loop_spec:
  assumes lab: "Labels s = Inr l"
  shows "k \<le> length smp \<Longrightarrow>
    \<exists>a'. append_loop spec_head s \<lparr>list = smp, idx = int k - 1\<rparr> ref a = (Inr (), a')
      \<and> observed a' = observed a @ map T (drop k smp)"
proof (induction "length smp - k" arbitrary: k ref a)
  case 0
  then have "k = length smp" by simp
  then show ?case
    by (subst append_loop.simps) (simp add: Next_def Let_def Ok_def Err_def)
next
  case (Suc d)
  then have lt: "k < length smp" by simp
  let ?x = "smp ! k"
  have d: "d = length smp - Suc k" using Suc.hyps(2) by simp
  have le: "Suc k \<le> length smp" using lt by simp
  have dr: "drop k smp = ?x # drop (Suc k) smp"
    using lt by (simp add: Cons_nth_drop_Suc)
  have "\<exists>r a1. append_loop spec_head s \<lparr>list = smp, idx = int k - 1\<rparr> ref a
          = append_loop spec_head s \<lparr>list = smp, idx = int (Suc k) - 1\<rparr> r a1
        \<and> observed a1 = observed a @ [T ?x]"
  proof (cases "ref \<noteq> 0 \<and> unat ref \<le> length (refs a)")
    case True
    let ?a1 = "a\<lparr>appended := appended a @ [(refs a ! (unat ref - 1), T ?x, V ?x)]\<rparr>"
    have "append_loop spec_head s \<lparr>list = smp, idx = int k - 1\<rparr> ref a
          = append_loop spec_head s \<lparr>list = smp, idx = int (Suc k) - 1\<rparr> ref ?a1"
      using lt True
      by (subst append_loop.simps)
         (simp add: Next_def Let_def At_def index_def spec_head_def)
    moreover have "observed ?a1 = observed a @ [T ?x]" by (simp add: observed_def)
    ultimately show ?thesis by blast
  next
    case False
    let ?rs = "if l \<in> set (refs a) then refs a else refs a @ [l]"
    let ?a1 = "a\<lparr>refs := ?rs, appended := appended a @ [(l, T ?x, V ?x)]\<rparr>"
    have "append_loop spec_head s \<lparr>list = smp, idx = int k - 1\<rparr> ref a
          = append_loop spec_head s \<lparr>list = smp, idx = int (Suc k) - 1\<rparr> (ref_of l ?rs) ?a1"
      using lt False
      by (subst append_loop.simps)
         (auto simp: Next_def Let_def At_def index_def spec_head_def lab Ok_def)
    moreover have "observed ?a1 = observed a @ [T ?x]" by (simp add: observed_def)
    ultimately show ?thesis by blast
  qed
  then obtain r a1 where
    step: "append_loop spec_head s \<lparr>list = smp, idx = int k - 1\<rparr> ref a
          = append_loop spec_head s \<lparr>list = smp, idx = int (Suc k) - 1\<rparr> r a1"
    and obs: "observed a1 = observed a @ [T ?x]" by blast
  from Suc.hyps(1)[OF d le, of r a1] obtain a' where
    "append_loop spec_head s \<lparr>list = smp, idx = int (Suc k) - 1\<rparr> r a1 = (Inr (), a')"
    "observed a' = observed a1 @ map T (drop (Suc k) smp)" by blast
  then show ?case using step obs dr by simp
qed

lemma series_appends_spec:
  "\<exists>a'. series_loop_appends spec_head (map (\<lambda>f. newSeries (fst f) (snd f)) fixtures) a = (Inr (), a')
      \<and> observed a' = observed a @ fixture_times fixtures"
proof (induction fixtures arbitrary: a)
  case Nil
  show ?case by (simp add: fixture_times_def)
next
  case (Cons f fs)
  obtain a1 where
    one: "append_loop spec_head (newSeries (fst f) (snd f)) \<lparr>list = snd f, idx = int 0 - 1\<rparr> 0 a = (Inr (), a1)"
    and o1: "observed a1 = observed a @ map T (drop 0 (snd f))"
    using append_loop_spec[OF Labels_newSeries, where k = 0 and smp = "snd f" and ref = 0 and a = a]
    by auto
  obtain a2 where
    rest: "series_loop_appends spec_head (map (\<lambda>f. newSeries (fst f) (snd f)) fs) a1 = (Inr (), a2)"
    and o2: "observed a2 = observed a1 @ fixture_times fs"
    using Cons.IH[of a1] by auto
  show ?case using one o1 rest o2
    by (simp add: Iterator_newSeries newListSeriesIterator_def fixture_times_def)
qed

lemma createHead_spec:
  "\<exists>head. createHead spec_head (map (\<lambda>f. newSeries (fst f) (snd f)) fixtures) = (Inr (), head)
      \<and> observed head = fixture_times fixtures"
proof -
  let ?h0 = "\<lparr>refs = [], appended = []\<rparr> :: 'a buffer"
  obtain a' where run: "series_loop_appends spec_head (map (\<lambda>f. newSeries (fst f) (snd f)) fixtures) ?h0 = (Inr (), a')"
    and obs: "observed a' = observed ?h0 @ fixture_times fixtures"
    using series_appends_spec[of fixtures ?h0] by blast
  have nh: "NewHead (spec_head :: ('a buffer, 'a) Head) = (?h0, None)"
    by (simp add: spec_head_def)
  have cm: "Commit (spec_head :: ('a buffer, 'a) Head) a' = (None, a')"
    by (simp add: spec_head_def)
  have "createHead spec_head (map (\<lambda>f. newSeries (fst f) (snd f)) fixtures) = (Inr (), a')"
    unfolding createHead_def nh by (simp add: Ok_def run cm)
  moreover have "observed a' = fixture_times fixtures"
    using obs by (simp add: observed_def)
  ultimately show ?thesis by blast
qed

lemmas CreateBlock_eval =
  CreateBlock_def createHead_def append_loop.simps spec_head_def range_compactor_def observed_def
  smax_def smin_def ref_of_def max_int64_def min_int64_def Ok_def Err_def Next_def At_def index_def
  Let_def Labels_def Iterator_def newSeries_def FromMap_def newListSeriesIterator_def
  Itoa_def udigits.simps digit_def word_sle_eq word_sless_alt

text \<open>
  Claim C7, as stated, fails when the greatest timestamp \<open>M\<close> is the largest \<^verbatim>\<open>int64\<close>:
  \<^verbatim>\<open>head.MaxTime()+1\<close> wraps to the smallest \<^verbatim>\<open>int64\<close>, the compactor is asked for the
  range from 0 to \<open>-2 ^ 63\<close>, and that half-open range does not contain \<open>M\<close>.
\<close>

theorem CreateBlock_upper_bound_counterexample:
  "MaxTime spec_head (snd (createHead spec_head last_instant)) = 0x7FFFFFFFFFFFFFFF
   \<and> CreateBlock spec_head range_compactor ''blocks'' last_instant
       = Inr ''blocks/0..-9223372036854775808''
   \<and> \<not> (0x7FFFFFFFFFFFFFFF :: int64) <s 0x7FFFFFFFFFFFFFFF + 1"
  by (simp add: CreateBlock_eval last_instant_def)

text \<open>
  Claim C7, amended. For fixtures built by \<^verbatim>\<open>newSeries\<close> and ingested into the buffer of
  the spec, whose greatest timestamp \<open>M\<close> is less than the largest \<^verbatim>\<open>int64\<close>: once the
  compactor and the directory are there, \<^verbatim>\<open>CreateBlock\<close> calls \<^verbatim>\<open>compactor.Write\<close> with
  the head's least timestamp as lower bound and exactly \<open>M + 1\<close> as upper bound, without
  wrap-around, and returns what that call gives; the half-open range between the two
  bounds contains \<open>M\<close>.
\<close>

theorem CreateBlock_upper_bound:
  assumes ok1: "NewLeveledCompactor C = None" and ok2: "MkdirAll C dir = None"
    and M_in: "M \<in> set (fixture_times fixtures)"
    and M_max: "\<forall>t\<in>set (fixture_times fixtures). t \<le>s M"
    and below: "M \<noteq> max_int64"
  shows "\<exists>head. createHead spec_head (map (\<lambda>f. newSeries (fst f) (snd f)) fixtures) = (Inr (), head)
      \<and> MaxTime spec_head head = M
      \<and> CreateBlock spec_head C dir (map (\<lambda>f. newSeries (fst f) (snd f)) fixtures)
          = finish_block C dir (Write C dir head (MinTime spec_head head) (M + 1))
      \<and> MinTime spec_head head \<le>s M \<and> M <s M + 1 \<and> sint (M + 1) = sint M + 1"
proof -
  obtain head where
    ch: "createHead spec_head (map (\<lambda>f. newSeries (fst f) (snd f)) fixtures) = (Inr (), head)"
    and obs: "observed head = fixture_times fixtures"
    using createHead_spec[of fixtures] by auto
  have mx: "MaxTime spec_head head = M"
    using fold_smax_upper[OF M_max min_int64_least, of ] M_in
    by (simp add: spec_head_def obs)
  have mn: "MinTime spec_head head \<le>s M"
    using fold_smin_lower[of "fixture_times fixtures" max_int64] M_in
    by (simp add: spec_head_def obs)
  have "sint M < 2 ^ 63 - 1"
  proof -
    have "sint M \<le> sint max_int64" using max_int64_greatest[of M] by (simp add: word_sle_eq)
    moreover have "sint M \<noteq> sint max_int64" using below signed_word_eqI by blast
    ultimately show ?thesis by (simp add: max_int64_def)
  qed
  moreover have "- (2 ^ 63) \<le> sint M" using sint_ge[of M] by simp
  ultimately have succ: "sint (M + 1) = sint M + 1"
    by (simp add: sint_word_ariths signed_take_bit_int_eq_self)
  then have lt: "M <s M + 1" by (simp add: word_sless_alt)
  have cb: "CreateBlock spec_head C dir (map (\<lambda>f. newSeries (fst f) (snd f)) fixtures)
          = finish_block C dir (Write C dir head (MinTime spec_head head) (M + 1))"
    using ch ok1 ok2 mx by (simp add: CreateBlock_def Ok_def finish_block_def)
  show ?thesis using ch mx cb mn lt succ by (intro exI[of _ head] conjI)
qed

theorem CreateBlock_upper_bound_witness:
  "NewLeveledCompactor (range_compactor :: real buffer Compactor) = None
   \<and> MkdirAll (range_compactor :: real buffer Compactor) ''blocks'' = None
   \<and> 1 \<in> set (fixture_times two_fixtures)
   \<and> fixture_times two_fixtures = [0, 1, 0]
   \<and> (1 :: int64) \<noteq> max_int64
   \<and> (\<exists>head. createHead spec_head (map (\<lambda>f. newSeries (fst f) (snd f)) two_fixtures) = (Inr (), head)
      \<and> MaxTime spec_head head = 1
      \<and> CreateBlock spec_head range_compactor ''blocks'' (map (\<lambda>f. newSeries (fst f) (snd f)) two_fixtures)
          = finish_block (range_compactor :: real buffer Compactor) ''blocks''
              (Write range_compactor ''blocks'' head (MinTime spec_head head) (1 + 1))
      \<and> MinTime spec_head head \<le>s 1 \<and> (1 :: int64) <s 1 + 1 \<and> sint ((1 :: int64) + 1) = sint (1 :: int64) + 1)
   \<and> CreateBlock spec_head range_compactor ''blocks'' (map (\<lambda>f. newSeries (fst f) (snd f)) two_fixtures)
       = Inr ''blocks/0..2''"
proof -
  have c: "NewLeveledCompactor (range_compactor :: real buffer Compactor) = None"
    "MkdirAll (range_compactor :: real buffer Compactor) ''blocks'' = None"
    by (simp_all add: range_compactor_def)
  have m: "1 \<in> set (fixture_times two_fixtures)"
    "\<forall>t\<in>set (fixture_times two_fixtures). t \<le>s 1"
    "(1 :: int64) \<noteq> max_int64"
    by (simp_all add: fixture_times_def two_fixtures_def max_int64_def word_sle_eq)
  have run: "CreateBlock spec_head range_compactor ''blocks'' (map (\<lambda>f. newSeries (fst f) (snd f)) two_fixtures)
       = Inr ''blocks/0..2''"
    by (simp add: CreateBlock_eval two_fixtures_def)
  have ts: "fixture_times two_fixtures = [0, 1, 0]"
    by (simp add: fixture_times_def two_fixtures_def)
  from c m(1) ts m(3) run CreateBlock_upper_bound[OF c m] show ?thesis
    by (intro conjI)
qed

end
